theory Spec2Isabelle
  imports Complex_Main "HOL-Library.Word"
begin

section \<open>Data model\<close>

text \<open>
  The program (\<^verbatim>\<open>src/main.c\<close>) computes with C \<^verbatim>\<open>float\<close> and \<^verbatim>\<open>int\<close>.
  A \<^verbatim>\<open>float\<close> is modelled by a \<^typ>\<open>real\<close>: arithmetic is exact, there is no
  rounding, no infinity and no NaN. Where the program would divide by a distance
  that is zero the model records the fact in a flag (\<open>divByZero\<close>), since from
  there on its numbers are no longer those of the program. An \<^verbatim>\<open>int\<close> is modelled
  by an \<^typ>\<open>int\<close>; the counters of the program (at most 100 charges, a step
  budget and a resolution changed by one key press at a time) stay far from
  \<open>2 ^ 31\<close>. An \<^verbatim>\<open>unsigned char\<close> is an \<^typ>\<open>8 word\<close>.
\<close>

datatype Vector3 = Vector3 (vec_x: real) (vec_y: real) (vec_z: real)

datatype Ray = Ray (ray_position: Vector3) (ray_direction: Vector3)

datatype Color = Color (col_r: "8 word") (col_g: "8 word") (col_b: "8 word") (col_a: "8 word")

record Charge =
  position :: Vector3
  val :: real

text \<open>\<^verbatim>\<open>#define MAX_CHARGES 100\<close>, \<^verbatim>\<open>#define FIELD_LINE_STEP_SIZE 0.05f\<close>.\<close>

definition MAX_CHARGES :: int where
  "MAX_CHARGES = 100"

definition FIELD_LINE_STEP_SIZE :: real where
  "FIELD_LINE_STEP_SIZE = 0.05"

text \<open>The two colours of \<^verbatim>\<open>raylib.h\<close> that the tracer blends.\<close>

definition BLUE :: Color where
  "BLUE = Color 0 121 241 255"

definition RED :: Color where
  "RED = Color 230 41 55 255"

section \<open>Geometry utilities and colour grading\<close>

text \<open>\<^verbatim>\<open>Clamp\<close> of \<^verbatim>\<open>raymath.h\<close>:
  \<^verbatim>\<open>result = (value < min)? min : value; if (result > max) result = max;\<close>\<close>

definition Clamp :: "real \<Rightarrow> real \<Rightarrow> real \<Rightarrow> real" where
  "Clamp v lo hi = (let result = (if v < lo then lo else v) in if result > hi then hi else result)"

text \<open>\<^verbatim>\<open>GetGroundIntersection\<close>: \<open>None\<close> is the C function returning \<^verbatim>\<open>false\<close>
  (the out parameter is then left untouched), \<open>Some pos\<close> is \<^verbatim>\<open>true\<close> with
  \<^verbatim>\<open>*outPos = pos\<close>.\<close>

definition GetGroundIntersection :: "Ray \<Rightarrow> Vector3 option" where
  "GetGroundIntersection ray =
     (if \<bar>vec_y (ray_direction ray)\<bar> < 0.001 then None
      else let t = - vec_y (ray_position ray) / vec_y (ray_direction ray) in
        if t < 0 then None
        else let limit = 50 in
          Some (Vector3 (Clamp (vec_x (ray_position ray) + vec_x (ray_direction ray) * t) (- limit) limit)
                        0
                        (Clamp (vec_z (ray_position ray) + vec_z (ray_direction ray) * t) (- limit) limit)))"

text \<open>One channel of \<^verbatim>\<open>CustomColorLerp\<close>:
  \<^verbatim>\<open>(unsigned char)((c1.r * invAmount + c2.r * iAmount) >> 8)\<close>, computed in \<^verbatim>\<open>int\<close>.\<close>

definition lerp_channel :: "8 word \<Rightarrow> 8 word \<Rightarrow> int \<Rightarrow> 8 word" where
  "lerp_channel a b iAmount =
     (let invAmount = 256 - iAmount in word_of_int ((uint a * invAmount + uint b * iAmount) div 256))"

text \<open>\<^verbatim>\<open>CustomColorLerp\<close>. The cast \<^verbatim>\<open>(int)(amount * 256.0f)\<close> truncates; it is
  reached with \<open>0 < amount < 1\<close> only, where truncation is \<open>floor\<close>.\<close>

definition CustomColorLerp :: "Color \<Rightarrow> Color \<Rightarrow> real \<Rightarrow> Color" where
  "CustomColorLerp c1 c2 amount =
     (if amount \<le> 0 then c1
      else if amount \<ge> 1 then c2
      else let iAmount = \<lfloor>amount * 256\<rfloor> in
        Color (lerp_channel (col_r c1) (col_r c2) iAmount)
              (lerp_channel (col_g c1) (col_g c2) iAmount)
              (lerp_channel (col_b c1) (col_b c2) iAmount)
              255)"

text \<open>\<^verbatim>\<open>Fade\<close> of raylib: the alpha is clamped to \<open>[0, 1]\<close> and stored as
  \<^verbatim>\<open>(unsigned char)(255.0f*alpha)\<close>.\<close>

definition Fade :: "Color \<Rightarrow> real \<Rightarrow> Color" where
  "Fade color alpha =
     (let al = (if alpha < 0 then 0 else if alpha > 1 then 1 else alpha)
      in Color (col_r color) (col_g color) (col_b color) (word_of_int \<lfloor>255 * al\<rfloor>))"

section \<open>Field-line tracer\<close>

text \<open>The variables that the loop over the charges (\<^verbatim>\<open>for k\<close>) updates.\<close>

record field_acc =
  dx :: real
  dy :: real
  dz :: real
  minDistToNeg :: real
  minDistToPos :: real
  hitSink :: bool
  divByZero :: bool

definition field_init :: field_acc where
  "field_init = \<lparr>dx = 0, dy = 0, dz = 0, minDistToNeg = 10000, minDistToPos = 10000,
                  hitSink = False, divByZero = False\<rparr>"

text \<open>Squared distance \<^verbatim>\<open>r2 = rx*rx + ry*ry + rz*rz\<close> from a charge position to a point.\<close>

definition dist2 :: "Vector3 \<Rightarrow> Vector3 \<Rightarrow> real" where
  "dist2 p q = (vec_x p - vec_x q) * (vec_x p - vec_x q)
             + (vec_y p - vec_y q) * (vec_y p - vec_y q)
             + (vec_z p - vec_z q) * (vec_z p - vec_z q)"

text \<open>The body of the loop over the charges, for the charge \<open>c\<close> at the point \<open>p\<close>.
  The flag \<open>divByZero\<close> is set where \<^verbatim>\<open>1.0f / r\<close> has \<open>r = 0\<close>.\<close>

definition field_step :: "Vector3 \<Rightarrow> field_acc \<Rightarrow> Charge \<Rightarrow> field_acc" where
  "field_step p acc c =
     (let rx = vec_x p - vec_x (position c);
          ry = vec_y p - vec_y (position c);
          rz = vec_z p - vec_z (position c);
          r2 = dist2 p (position c);
          r = sqrt r2;
          rInv = 1 / r;
          rInv3 = rInv * rInv * rInv;
          s = val c * rInv3
      in \<lparr>dx = dx acc + s * rx,
          dy = dy acc + s * ry,
          dz = dz acc + s * rz,
          minDistToNeg = (if val c > 0 then minDistToNeg acc
                          else if r < minDistToNeg acc then r else minDistToNeg acc),
          minDistToPos = (if val c > 0 then (if r < minDistToPos acc then r else minDistToPos acc)
                          else minDistToPos acc),
          hitSink = (if r2 < 0.04 \<and> val c < 0 then True else hitSink acc),
          divByZero = (divByZero acc \<or> r = 0)\<rparr>)"

definition field_at :: "Charge list \<Rightarrow> Vector3 \<Rightarrow> field_acc" where
  "field_at cs p = foldl (field_step p) field_init cs"

definition magSq :: "field_acc \<Rightarrow> real" where
  "magSq f = dx f * dx f + dy f * dy f + dz f * dz f"

text \<open>The point after the step: the field is normalised and the point moves by
  \<open>FIELD_LINE_STEP_SIZE\<close> along it.\<close>

definition advance :: "Vector3 \<Rightarrow> field_acc \<Rightarrow> Vector3" where
  "advance p f =
     (let invMag = 1 / sqrt (magSq f)
      in Vector3 (vec_x p + dx f * invMag * FIELD_LINE_STEP_SIZE)
                 (vec_y p + dy f * invMag * FIELD_LINE_STEP_SIZE)
                 (vec_z p + dz f * invMag * FIELD_LINE_STEP_SIZE))"

definition escaped :: "Vector3 \<Rightarrow> bool" where
  "escaped p \<longleftrightarrow> vec_x p * vec_x p + vec_y p * vec_y p + vec_z p * vec_z p > 2500"

definition seg_mix :: "field_acc \<Rightarrow> real" where
  "seg_mix f = (minDistToPos f / (minDistToPos f + minDistToNeg f + 0.001)) powr 0.7"

definition seg_alpha_of :: "int \<Rightarrow> int \<Rightarrow> field_acc \<Rightarrow> real" where
  "seg_alpha_of maxSteps step f =
     (let alpha = (if step > maxSteps - 50 then real_of_int (maxSteps - step) / 50 else 1)
      in if minDistToNeg f > 20 then alpha * 0.5 else alpha)"

text \<open>What one iteration hands to the renderer: the colour \<^verbatim>\<open>finalCol\<close> and the two
  vertices. The local \<^verbatim>\<open>alpha\<close> is kept beside them.\<close>

record segment =
  seg_start :: Vector3
  seg_end :: Vector3
  seg_alpha :: real
  seg_color :: Color

definition emit :: "int \<Rightarrow> int \<Rightarrow> Vector3 \<Rightarrow> field_acc \<Rightarrow> segment" where
  "emit maxSteps step p f =
     (let col = CustomColorLerp BLUE RED (seg_mix f);
          alpha = seg_alpha_of maxSteps step f
      in \<lparr>seg_start = p, seg_end = advance p f, seg_alpha = alpha,
          seg_color = Fade col (0.6 * alpha)\<rparr>)"

text \<open>How the loop over \<^verbatim>\<open>step\<close> was left: by one of its three \<^verbatim>\<open>break\<close>s or by its
  condition \<^verbatim>\<open>step < fieldLineSteps\<close>.\<close>

datatype outcome = CapturedBySink | FieldVanished | EscapedBoundary | StepBudgetExhausted

record trace_result =
  segments :: "segment list"
  outcome :: outcome
  endStep :: int
  endPoint :: Vector3
  dividedByZero :: bool

definition stop :: "outcome \<Rightarrow> int \<Rightarrow> Vector3 \<Rightarrow> bool \<Rightarrow> trace_result" where
  "stop out step p dz0 =
     \<lparr>segments = [], outcome = out, endStep = step, endPoint = p, dividedByZero = dz0\<rparr>"

definition continue :: "segment \<Rightarrow> bool \<Rightarrow> trace_result \<Rightarrow> trace_result" where
  "continue sg dz0 res = res\<lparr>segments := sg # segments res, dividedByZero := (dz0 \<or> dividedByZero res)\<rparr>"

text \<open>The loop \<^verbatim>\<open>for (int step = 0; step < fieldLineSteps; step++)\<close> from the value
  \<open>step\<close> of its counter and the point \<open>p = (x, y, z)\<close>. The parameter \<open>maxSteps\<close> is
  the global \<^verbatim>\<open>fieldLineSteps\<close>, and \<open>res\<close> below is \<^verbatim>\<open>lineResolution\<close>.\<close>

function trace_steps :: "Charge list \<Rightarrow> int \<Rightarrow> int \<Rightarrow> Vector3 \<Rightarrow> trace_result" where
  "trace_steps cs maxSteps step p =
     (if step < maxSteps then
        if hitSink (field_at cs p) then
          stop CapturedBySink step p (divByZero (field_at cs p))
        else if magSq (field_at cs p) < 1 / 10 ^ 12 then
          stop FieldVanished step p (divByZero (field_at cs p))
        else if escaped (advance p (field_at cs p)) then
          stop EscapedBoundary step (advance p (field_at cs p)) (divByZero (field_at cs p))
        else
          continue (emit maxSteps step p (field_at cs p)) (divByZero (field_at cs p))
            (trace_steps cs maxSteps (step + 1) (advance p (field_at cs p)))
      else stop StepBudgetExhausted step p False)"
  by pat_completeness auto
termination
  by (relation "measure (\<lambda>(cs, maxSteps, step, p). nat (maxSteps - step))") auto

text \<open>The seed of the line \<open>(t, p)\<close> of a charge at \<open>c\<close>: the body of the loops over
  \<^verbatim>\<open>t\<close> and \<^verbatim>\<open>p\<close> before the loop over \<^verbatim>\<open>step\<close>.\<close>

definition seed_point :: "Vector3 \<Rightarrow> int \<Rightarrow> int \<Rightarrow> int \<Rightarrow> int \<Rightarrow> Vector3" where
  "seed_point c num_theta num_phi t pp =
     (let startRadius = 0.1;
          theta = pi * real_of_int t / real_of_int num_theta;
          sinTheta = sin theta;
          cosTheta = cos theta;
          phi = 2 * pi * real_of_int pp / real_of_int num_phi
      in Vector3 (vec_x c + startRadius * sinTheta * cos phi)
                 (vec_y c + startRadius * sinTheta * sin phi)
                 (vec_z c + startRadius * cosTheta))"

text \<open>The seeds of one charge, in the order of the loops
  \<^verbatim>\<open>for (int t = 1; t < num_theta; t++)\<close> and \<^verbatim>\<open>for (int p = 0; p < num_phi; p++)\<close>.\<close>

definition seeds :: "int \<Rightarrow> Vector3 \<Rightarrow> Vector3 list" where
  "seeds res c =
     (let num_phi = 4 * res;
          num_theta = 3 * res
      in concat (map (\<lambda>t. map (\<lambda>pp. seed_point c num_theta num_phi t pp) [0..num_phi - 1])
                     [1..num_theta - 1]))"

text \<open>The lines of one charge, and of the frame: the loop over \<^verbatim>\<open>j\<close> skips every
  charge with \<^verbatim>\<open>charges[j].value <= 0\<close>. The list \<open>cs\<close> is the live part
  \<^verbatim>\<open>charges[0 .. numCharges - 1]\<close> of the array.\<close>

definition charge_lines :: "Charge list \<Rightarrow> int \<Rightarrow> int \<Rightarrow> Charge \<Rightarrow> trace_result list" where
  "charge_lines cs res maxSteps c =
     map (trace_steps cs maxSteps 0) (seeds res (position c))"

definition trace_frame :: "Charge list \<Rightarrow> int \<Rightarrow> int \<Rightarrow> trace_result list" where
  "trace_frame cs res maxSteps =
     concat (map (\<lambda>c. if val c \<le> 0 then [] else charge_lines cs res maxSteps c) cs)"

text \<open>The point lies within the capture radius of a negative charge
  (squared distance below 0.04).\<close>

definition near_sink :: "Charge list \<Rightarrow> Vector3 \<Rightarrow> bool" where
  "near_sink cs p \<longleftrightarrow> (\<exists>c \<in> set cs. val c < 0 \<and> dist2 p (position c) < 0.04)"

section \<open>Charge store and editing controller\<close>

text \<open>The global variables of the program that the controller and the tracer use.
  The array \<^verbatim>\<open>charges\<close> has \<open>MAX_CHARGES\<close> slots, of which the first \<open>numCharges\<close>
  are live; \<^verbatim>\<open>chargeInput\<close> has 16 bytes. The camera is left out: it enters the
  controller only through the mouse ray and the projection of the charges to the
  screen, which are inputs of the frame.\<close>

record sim_state =
  charges :: "Charge list"
  numCharges :: int
  selectedCharge :: int
  freeCameraMode :: bool
  fieldLineSteps :: int
  lineResolution :: int
  chargeInput :: "char list"
  inputLength :: int
  isTyping :: bool

text \<open>What the host answers during one call of \<^verbatim>\<open>UpdateDrawFrame\<close>:
  \<open>overCharge pos\<close> is \<^verbatim>\<open>CheckCollisionPointCircle(mouse, GetWorldToScreen(pos, camera), 20.0f)\<close>,
  \<open>mouseRay\<close> is \<^verbatim>\<open>GetMouseRay(mouse, camera)\<close>, \<open>charsPressed\<close> are the successive
  results of \<^verbatim>\<open>GetCharPressed()\<close>, and \<open>keyMouseLeft\<close> is
  \<^verbatim>\<open>IsKeyPressed(MOUSE_BUTTON_LEFT)\<close>, as the program asks it.\<close>

record frame_input =
  keyF :: bool
  keyUp :: bool
  keyDown :: bool
  keyRight :: bool
  keyLeft :: bool
  mouseLeftPressed :: bool
  mouseLeftDown :: bool
  mouseRightPressed :: bool
  mouseRay :: Ray
  overCharge :: "Vector3 \<Rightarrow> bool"
  charsPressed :: "int list"
  keyBackspace :: bool
  keyMouseLeft :: bool
  keyEscape :: bool

definition NUL :: char where
  "NUL = CHR 0x00"

text \<open>The C string held in a buffer: the bytes before the first \<^verbatim>\<open>'\0'\<close>.\<close>

definition c_string :: "char list \<Rightarrow> string" where
  "c_string buf = takeWhile (\<lambda>c. c \<noteq> NUL) buf"

text \<open>The live part \<^verbatim>\<open>charges[0 .. numCharges - 1]\<close> of the array.\<close>

definition live :: "sim_state \<Rightarrow> Charge list" where
  "live s = take (nat (numCharges s)) (charges s)"

text \<open>The scan \<^verbatim>\<open>for (int i = 0; i < numCharges; i++)\<close> of both click handlers, from
  the index \<open>i\<close>: the first index under the pointer, or \<open>-1\<close>.\<close>

function pick_charge :: "(Vector3 \<Rightarrow> bool) \<Rightarrow> Charge list \<Rightarrow> int \<Rightarrow> int \<Rightarrow> int" where
  "pick_charge over cs n i =
     (if i < n then
        if over (position (cs ! nat i)) then i else pick_charge over cs n (i + 1)
      else - 1)"
  by pat_completeness auto
termination
  by (relation "measure (\<lambda>(over, cs, n, i). nat (n - i))") auto

text \<open>\<^verbatim>\<open>charges[numCharges++] = (Charge){spawnPos, val}\<close>.\<close>

definition add_charge :: "Vector3 \<Rightarrow> real \<Rightarrow> sim_state \<Rightarrow> sim_state" where
  "add_charge spawnPos v s =
     s\<lparr>charges := (charges s)[nat (numCharges s) := \<lparr>position = spawnPos, val = v\<rparr>],
       numCharges := numCharges s + 1\<rparr>"

definition reset_input :: "sim_state \<Rightarrow> sim_state" where
  "reset_input s = s\<lparr>chargeInput := (chargeInput s)[0 := NUL], inputLength := 0\<rparr>"

text \<open>The block \<^verbatim>\<open>if (IsMouseButtonPressed(MOUSE_BUTTON_LEFT))\<close> of the mouse mode.
  \<open>strtof\<close> is the function of the C library.\<close>

definition left_click :: "(string \<Rightarrow> real) \<Rightarrow> frame_input \<Rightarrow> sim_state \<Rightarrow> sim_state" where
  "left_click strtof inp s =
     (let i = pick_charge (overCharge inp) (charges s) (numCharges s) 0 in
      if i \<noteq> - 1 then s\<lparr>selectedCharge := i, isTyping := False\<rparr>
      else let s1 = s\<lparr>selectedCharge := - 1\<rparr> in
        if isTyping s1 \<and> inputLength s1 > 0 then
          let v = strtof (c_string (chargeInput s1)) in
          if v \<noteq> 0 then
            case GetGroundIntersection (mouseRay inp) of
              None \<Rightarrow> s1
            | Some spawnPos \<Rightarrow>
                reset_input
                  ((if numCharges s1 < MAX_CHARGES then add_charge spawnPos v s1 else s1)
                     \<lparr>isTyping := False\<rparr>)
          else s1
        else reset_input (s1\<lparr>isTyping := True\<rparr>))"

text \<open>The block \<^verbatim>\<open>if (selectedCharge != -1)\<close>. The index written is one that a
  click has selected, which is below \<open>MAX_CHARGES\<close>.\<close>

definition drag :: "frame_input \<Rightarrow> sim_state \<Rightarrow> sim_state" where
  "drag inp s =
     (if selectedCharge s \<noteq> - 1 then
        if mouseLeftDown inp then
          case GetGroundIntersection (mouseRay inp) of
            None \<Rightarrow> s
          | Some groundPos \<Rightarrow>
              s\<lparr>charges := (charges s)[nat (selectedCharge s) :=
                   (charges s ! nat (selectedCharge s))\<lparr>position := groundPos\<rparr>]\<rparr>
        else s\<lparr>selectedCharge := - 1\<rparr>
      else s)"

text \<open>The loop \<^verbatim>\<open>for (int k = deleteIndex; k < numCharges - 1; k++) charges[k] = charges[k + 1]\<close>
  from the index \<open>k\<close>.\<close>

function shift_left :: "Charge list \<Rightarrow> int \<Rightarrow> int \<Rightarrow> Charge list" where
  "shift_left cs n k =
     (if k < n - 1 then shift_left (cs[nat k := cs ! nat (k + 1)]) n (k + 1) else cs)"
  by pat_completeness auto
termination
  by (relation "measure (\<lambda>(cs, n, k). nat (n - k))") auto

text \<open>The body of \<^verbatim>\<open>if (deleteIndex != -1)\<close>.\<close>

definition delete_charge :: "int \<Rightarrow> sim_state \<Rightarrow> sim_state" where
  "delete_charge deleteIndex s =
     s\<lparr>charges := shift_left (charges s) (numCharges s) deleteIndex,
       numCharges := numCharges s - 1,
       isTyping := False\<rparr>"

text \<open>The block \<^verbatim>\<open>if (IsMouseButtonPressed(MOUSE_BUTTON_RIGHT))\<close>.\<close>

definition right_click :: "frame_input \<Rightarrow> sim_state \<Rightarrow> sim_state" where
  "right_click inp s =
     (let deleteIndex = pick_charge (overCharge inp) (charges s) (numCharges s) 0 in
      if deleteIndex \<noteq> - 1 then delete_charge deleteIndex s else s)"

text \<open>The keys of the mouse mode that change the two parameters of the tracer.\<close>

definition adjust_parameters :: "frame_input \<Rightarrow> sim_state \<Rightarrow> sim_state" where
  "adjust_parameters inp s =
     (let s1 = (if keyUp inp then s\<lparr>fieldLineSteps := fieldLineSteps s + 5\<rparr> else s);
          s2 = (if keyDown inp then
                  (if fieldLineSteps s1 - 5 < 10 then s1\<lparr>fieldLineSteps := 10\<rparr>
                   else s1\<lparr>fieldLineSteps := fieldLineSteps s1 - 5\<rparr>)
                else s1);
          s3 = (if keyRight inp then s2\<lparr>lineResolution := lineResolution s2 + 1\<rparr> else s2)
      in if keyLeft inp then
           (if lineResolution s3 - 1 < 1 then s3\<lparr>lineResolution := 1\<rparr>
            else s3\<lparr>lineResolution := lineResolution s3 - 1\<rparr>)
         else s3)"

text \<open>The characters that the typing block accepts: a digit, \<^verbatim>\<open>'.'\<close> or \<^verbatim>\<open>'-'\<close>.\<close>

definition accepted_key :: "int \<Rightarrow> bool" where
  "accepted_key key \<longleftrightarrow>
     (key \<ge> of_char CHR ''0'' \<and> key \<le> of_char CHR ''9'')
     \<or> key = of_char CHR ''.'' \<or> key = of_char CHR ''-''"

text \<open>The body of the loop \<^verbatim>\<open>while ((key = GetCharPressed()) > 0)\<close>.\<close>

definition type_char :: "int \<Rightarrow> sim_state \<Rightarrow> sim_state" where
  "type_char key s =
     (if accepted_key key \<and> inputLength s < 10 then
        s\<lparr>chargeInput := ((chargeInput s)[nat (inputLength s) := char_of key])
                            [nat (inputLength s + 1) := NUL],
          inputLength := inputLength s + 1\<rparr>
      else s)"

fun type_chars :: "int list \<Rightarrow> sim_state \<Rightarrow> sim_state" where
  "type_chars [] s = s"
| "type_chars (key # keys) s = (if key > 0 then type_chars keys (type_char key s) else s)"

text \<open>\<^verbatim>\<open>if (IsKeyPressed(KEY_BACKSPACE) && inputLength > 0) chargeInput[--inputLength] = '\0'\<close>.\<close>

definition backspace :: "frame_input \<Rightarrow> sim_state \<Rightarrow> sim_state" where
  "backspace inp s =
     (if keyBackspace inp \<and> inputLength s > 0 then
        s\<lparr>chargeInput := (chargeInput s)[nat (inputLength s - 1) := NUL],
          inputLength := inputLength s - 1\<rparr>
      else s)"

text \<open>The block \<^verbatim>\<open>if (IsKeyPressed(MOUSE_BUTTON_LEFT))\<close> inside the typing block.\<close>

definition typing_commit :: "(string \<Rightarrow> real) \<Rightarrow> frame_input \<Rightarrow> sim_state \<Rightarrow> sim_state" where
  "typing_commit strtof inp s =
     (if keyMouseLeft inp then
        (if numCharges s < MAX_CHARGES \<and> inputLength s > 0 then
           let v = strtof (c_string (chargeInput s)) in
           if v \<noteq> 0 then
             case GetGroundIntersection (mouseRay inp) of
               None \<Rightarrow> s
             | Some spawnPos \<Rightarrow> add_charge spawnPos v s
           else s
         else s)\<lparr>isTyping := False\<rparr>
      else s)"

text \<open>The block \<^verbatim>\<open>if (isTyping)\<close>.\<close>

definition typing :: "(string \<Rightarrow> real) \<Rightarrow> frame_input \<Rightarrow> sim_state \<Rightarrow> sim_state" where
  "typing strtof inp s =
     (if isTyping s then
        let s1 = type_chars (charsPressed inp) s;
            s2 = backspace inp s1;
            s3 = typing_commit strtof inp s2
        in if keyEscape inp then s3\<lparr>isTyping := False\<rparr> else s3
      else s)"

text \<open>\<^verbatim>\<open>if (IsKeyPressed(KEY_F))\<close>.\<close>

definition toggle_camera :: "frame_input \<Rightarrow> sim_state \<Rightarrow> sim_state" where
  "toggle_camera inp s =
     (if keyF inp then
        let s1 = s\<lparr>freeCameraMode := \<not> freeCameraMode s\<rparr>
        in if freeCameraMode s1 then s1\<lparr>isTyping := False\<rparr> else s1
      else s)"

text \<open>The input handling of \<^verbatim>\<open>UpdateDrawFrame\<close>, in the order of the source.\<close>

definition update :: "(string \<Rightarrow> real) \<Rightarrow> frame_input \<Rightarrow> sim_state \<Rightarrow> sim_state" where
  "update strtof inp s =
     (let s1 = toggle_camera inp s;
          s2 = (if \<not> freeCameraMode s1 then
                  let a = adjust_parameters inp s1;
                      b = (if mouseLeftPressed inp then left_click strtof inp a else a);
                      c = drag inp b
                  in if mouseRightPressed inp then right_click inp c else c
                else s1)
      in typing strtof inp s2)"

text \<open>The lines that \<^verbatim>\<open>UpdateDrawFrame\<close> then draws.\<close>

definition render :: "sim_state \<Rightarrow> trace_result list" where
  "render s = trace_frame (live s) (lineResolution s) (fieldLineSteps s)"

text \<open>The state that \<^verbatim>\<open>main\<close> sets up: the two charges of the start scene, the other
  globals as their initialisers give them.\<close>

definition start_charges :: "Charge list" where
  "start_charges = [\<lparr>position = Vector3 (- 8) 0 0, val = 2\<rparr>, \<lparr>position = Vector3 8 0 0, val = - 2\<rparr>]"

definition init_state :: sim_state where
  "init_state =
     \<lparr>charges = start_charges @ replicate 98 \<lparr>position = Vector3 0 0 0, val = 0\<rparr>,
      numCharges = 2,
      selectedCharge = - 1,
      freeCameraMode = True,
      fieldLineSteps = 3000,
      lineResolution = 3,
      chargeInput = replicate 16 NUL,
      inputLength = 0,
      isTyping = False\<rparr>"

section \<open>Invariants and example inputs\<close>

text \<open>The input buffer is well formed: it has its 16 bytes, \<open>inputLength\<close> is between
  0 and 10, the byte at index \<open>inputLength\<close> is the terminator, and the bytes before
  it are accepted characters.\<close>

definition input_ok :: "sim_state \<Rightarrow> bool" where
  "input_ok s \<longleftrightarrow>
     length (chargeInput s) = 16
     \<and> 0 \<le> inputLength s \<and> inputLength s \<le> 10
     \<and> chargeInput s ! nat (inputLength s) = NUL
     \<and> (\<forall>i < nat (inputLength s). accepted_key (of_char (chargeInput s ! i)))"

text \<open>A frame in which nothing is pressed; the pointer is over no charge and its ray
  goes straight down from \<open>(1, 5, 2)\<close>.\<close>

definition idle_input :: frame_input where
  "idle_input =
     \<lparr>keyF = False, keyUp = False, keyDown = False, keyRight = False, keyLeft = False,
      mouseLeftPressed = False, mouseLeftDown = False, mouseRightPressed = False,
      mouseRay = Ray (Vector3 1 5 2) (Vector3 0 (- 1) 0),
      overCharge = (\<lambda>pos. False),
      charsPressed = [],
      keyBackspace = False, keyMouseLeft = False, keyEscape = False\<rparr>"

text \<open>A state of the mouse mode with all 100 slots live, in which the user has typed
  \<^verbatim>\<open>5\<close>.\<close>

definition full_state :: sim_state where
  "full_state =
     \<lparr>charges = replicate 100 \<lparr>position = Vector3 0 0 0, val = 1\<rparr>,
      numCharges = 100,
      selectedCharge = - 1,
      freeCameraMode = False,
      fieldLineSteps = 3000,
      lineResolution = 3,
      chargeInput = CHR ''5'' # replicate 15 NUL,
      inputLength = 1,
      isTyping = True\<rparr>"

text \<open>Frames of the mouse mode in which the pointer is over the charge at
  \<open>(8, 0, 0)\<close>, its ray meeting the ground there: the left button goes down, and
  later the right button is pressed while the left one is still held.\<close>

definition over_sink :: frame_input where
  "over_sink = idle_input\<lparr>mouseRay := Ray (Vector3 8 5 0) (Vector3 0 (- 1) 0),
                           overCharge := (\<lambda>pos. pos = Vector3 8 0 0)\<rparr>"

definition press_left_on_sink :: frame_input where
  "press_left_on_sink = over_sink\<lparr>mouseLeftPressed := True, mouseLeftDown := True\<rparr>"

definition press_right_while_dragging :: frame_input where
  "press_right_while_dragging = over_sink\<lparr>mouseLeftDown := True, mouseRightPressed := True\<rparr>"

text \<open>The selected index is unset or is the index of a live charge.\<close>

definition selection_ok :: "sim_state \<Rightarrow> bool" where
  "selection_ok s \<longleftrightarrow>
     selectedCharge s = - 1 \<or> (0 \<le> selectedCharge s \<and> selectedCharge s < numCharges s)"

text \<open>The alpha of a segment in the words of the specification: 1 normally,
  \<open>(maxSteps - step) / 50\<close> within the final 50 steps of the budget, and halved when
  every negative charge is more than 20 units away from the current point.\<close>

definition spec_alpha :: "Charge list \<Rightarrow> int \<Rightarrow> int \<Rightarrow> Vector3 \<Rightarrow> real" where
  "spec_alpha cs maxSteps step p =
     (let fade = (if maxSteps - step \<le> 50 then real_of_int (maxSteps - step) / 50 else 1)
      in if (\<forall>c \<in> set cs. val c < 0 \<longrightarrow> sqrt (dist2 p (position c)) > 20)
         then fade / 2 else fade)"

text \<open>A single positive unit charge at the origin, and the point at distance 0.1
  from it on the \<open>x\<close> axis.\<close>

definition unit_source :: "Charge list" where
  "unit_source = [\<lparr>position = Vector3 0 0 0, val = 1\<rparr>]"

definition near_origin :: Vector3 where
  "near_origin = Vector3 (1 / 10) 0 0"

text \<open>A single positive charge of value \<open>0.000000001\<close> (the user types
  \<^verbatim>\<open>.000000001\<close>, ten characters) at the origin.\<close>

definition tiny_source :: "Charge list" where
  "tiny_source = [\<lparr>position = Vector3 0 0 0, val = 1 / 10 ^ 9\<rparr>]"

text \<open>The store is well formed: the array has its \<open>MAX_CHARGES\<close> slots and the count
  of live charges is between 0 and \<open>MAX_CHARGES\<close>.\<close>

definition store_ok :: "sim_state \<Rightarrow> bool" where
  "store_ok s \<longleftrightarrow>
     int (length (charges s)) = MAX_CHARGES \<and> 0 \<le> numCharges s \<and> numCharges s \<le> MAX_CHARGES"

section \<open>Properties of the tracer\<close>

declare trace_steps.simps [simp del]

declare pick_charge.simps [simp del]

declare shift_left.simps [simp del]

lemma hitSink_foldl:
  "hitSink (foldl (field_step p) acc cs) \<longleftrightarrow> hitSink acc \<or> near_sink cs p"
  by (induction cs arbitrary: acc) (auto simp: near_sink_def field_step_def Let_def)

lemma hitSink_field_at: "hitSink (field_at cs p) \<longleftrightarrow> near_sink cs p"
  by (simp add: field_at_def hitSink_foldl field_init_def)

lemma trace_steps_done:
  "\<not> step < n \<Longrightarrow> trace_steps cs n step p = stop StepBudgetExhausted step p False"
  by (subst trace_steps.simps) simp

lemma trace_steps_captured:
  "step < n \<Longrightarrow> near_sink cs p \<Longrightarrow>
     trace_steps cs n step p = stop CapturedBySink step p (divByZero (field_at cs p))"
  by (subst trace_steps.simps) (simp add: hitSink_field_at)

lemma trace_steps_vanished:
  "step < n \<Longrightarrow> \<not> near_sink cs p \<Longrightarrow> magSq (field_at cs p) < 1 / 10 ^ 12 \<Longrightarrow>
     trace_steps cs n step p = stop FieldVanished step p (divByZero (field_at cs p))"
  by (subst trace_steps.simps) (simp add: hitSink_field_at)

lemma trace_steps_escaped:
  "step < n \<Longrightarrow> \<not> near_sink cs p \<Longrightarrow> \<not> magSq (field_at cs p) < 1 / 10 ^ 12 \<Longrightarrow>
   escaped (advance p (field_at cs p)) \<Longrightarrow>
     trace_steps cs n step p =
       stop EscapedBoundary step (advance p (field_at cs p)) (divByZero (field_at cs p))"
  by (subst trace_steps.simps) (simp add: hitSink_field_at)

lemma trace_steps_emit:
  "step < n \<Longrightarrow> \<not> near_sink cs p \<Longrightarrow> \<not> magSq (field_at cs p) < 1 / 10 ^ 12 \<Longrightarrow>
   \<not> escaped (advance p (field_at cs p)) \<Longrightarrow>
     trace_steps cs n step p =
       continue (emit n step p (field_at cs p)) (divByZero (field_at cs p))
         (trace_steps cs n (step + 1) (advance p (field_at cs p)))"
  by (subst trace_steps.simps) (simp add: hitSink_field_at)

lemma trace_steps_cases [case_names exhausted captured vanished escaped emitted]:
  assumes "\<not> step < n \<Longrightarrow> P"
    and "step < n \<Longrightarrow> near_sink cs p \<Longrightarrow> P"
    and "step < n \<Longrightarrow> \<not> near_sink cs p \<Longrightarrow> magSq (field_at cs p) < 1 / 10 ^ 12 \<Longrightarrow> P"
    and "step < n \<Longrightarrow> \<not> near_sink cs p \<Longrightarrow> \<not> magSq (field_at cs p) < 1 / 10 ^ 12 \<Longrightarrow>
           escaped (advance p (field_at cs p)) \<Longrightarrow> P"
    and "step < n \<Longrightarrow> \<not> near_sink cs p \<Longrightarrow> \<not> magSq (field_at cs p) < 1 / 10 ^ 12 \<Longrightarrow>
           \<not> escaped (advance p (field_at cs p)) \<Longrightarrow> P"
  shows P
  using assms by blast

lemma trace_steps_bounds:
  "step \<le> n \<Longrightarrow>
     step \<le> endStep (trace_steps cs n step p) \<and> endStep (trace_steps cs n step p) \<le> n
     \<and> int (length (segments (trace_steps cs n step p))) = endStep (trace_steps cs n step p) - step
     \<and> (outcome (trace_steps cs n step p) = StepBudgetExhausted \<longleftrightarrow> endStep (trace_steps cs n step p) = n)"
proof (induction cs n step p rule: trace_steps.induct)
  case (1 cs n step p)
  show ?case
  proof (cases rule: trace_steps_cases [where step = step and n = n and cs = cs and p = p])
    case exhausted
    with "1.prems" show ?thesis by (simp add: trace_steps_done stop_def)
  next
    case captured
    then show ?thesis by (simp add: trace_steps_captured stop_def)
  next
    case vanished
    then show ?thesis by (simp add: trace_steps_vanished stop_def)
  next
    case escaped
    then show ?thesis by (simp add: trace_steps_escaped stop_def)
  next
    case emitted
    with "1.IH" show ?thesis
      by (simp add: trace_steps_emit continue_def hitSink_field_at)
  qed
qed

lemma trace_steps_cause:
  "(outcome (trace_steps cs n step p) = CapturedBySink \<longrightarrow> near_sink cs (endPoint (trace_steps cs n step p)))
   \<and> (outcome (trace_steps cs n step p) = FieldVanished \<longrightarrow>
        magSq (field_at cs (endPoint (trace_steps cs n step p))) < 1 / 10 ^ 12)
   \<and> (outcome (trace_steps cs n step p) = EscapedBoundary \<longrightarrow> escaped (endPoint (trace_steps cs n step p)))
   \<and> (outcome (trace_steps cs n step p) = StepBudgetExhausted \<longrightarrow> \<not> endStep (trace_steps cs n step p) < n)"
proof (induction cs n step p rule: trace_steps.induct)
  case (1 cs n step p)
  show ?case
  proof (cases rule: trace_steps_cases [where step = step and n = n and cs = cs and p = p])
    case exhausted
    then show ?thesis by (simp add: trace_steps_done stop_def)
  next
    case captured
    then show ?thesis by (simp add: trace_steps_captured stop_def)
  next
    case vanished
    then show ?thesis by (simp add: trace_steps_vanished stop_def)
  next
    case escaped
    then show ?thesis by (simp add: trace_steps_escaped stop_def)
  next
    case emitted
    with "1.IH" show ?thesis
      by (simp add: trace_steps_emit continue_def hitSink_field_at)
  qed
qed

lemma trace_steps_starts:
  "sg \<in> set (segments (trace_steps cs n step p)) \<Longrightarrow> \<not> near_sink cs (seg_start sg)"
proof (induction cs n step p rule: trace_steps.induct)
  case (1 cs n step p)
  show ?case
  proof (cases rule: trace_steps_cases [where step = step and n = n and cs = cs and p = p])
    case exhausted
    with "1.prems" show ?thesis by (simp add: trace_steps_done stop_def)
  next
    case captured
    with "1.prems" show ?thesis by (simp add: trace_steps_captured stop_def)
  next
    case vanished
    with "1.prems" show ?thesis by (simp add: trace_steps_vanished stop_def)
  next
    case escaped
    with "1.prems" show ?thesis by (simp add: trace_steps_escaped stop_def)
  next
    case emitted
    with "1.IH" "1.prems" show ?thesis
      by (auto simp add: trace_steps_emit continue_def hitSink_field_at emit_def Let_def)
  qed
qed

text \<open>
  Claim C2. For every list of charges, every start point and every step budget
  the loop over \<^verbatim>\<open>step\<close> of one seed ends: \<open>trace_steps\<close> is a total function, it
  leaves the loop with a counter between \<open>0\<close> and the budget, having emitted one
  segment for each completed step. It leaves in one of four ways, each with its
  cause: captured by a sink, field vanished, escaped the boundary, or budget
  exhausted. No emitted segment starts within the capture radius of a negative
  charge, and from any counter \<open>step\<close> below the budget and any point \<open>q\<close> within
  squared distance 0.04 of a negative charge the loop stops at once: no segment,
  no step, the counter and the point as they are.
\<close>

theorem trace_terminates:
  "(let r = trace_steps cs n 0 p in
      0 \<le> endStep r \<and> endStep r \<le> max 0 n
      \<and> int (length (segments r)) = endStep r
      \<and> (outcome r = CapturedBySink \<longrightarrow> endStep r < n \<and> near_sink cs (endPoint r))
      \<and> (outcome r = FieldVanished \<longrightarrow> endStep r < n \<and> magSq (field_at cs (endPoint r)) < 1 / 10 ^ 12)
      \<and> (outcome r = EscapedBoundary \<longrightarrow> endStep r < n \<and> escaped (endPoint r))
      \<and> (outcome r = StepBudgetExhausted \<longrightarrow> endStep r = max 0 n)
      \<and> (\<forall>sg \<in> set (segments r). \<not> near_sink cs (seg_start sg)))
   \<and> (step < n \<and> near_sink cs q \<longrightarrow>
        trace_steps cs n step q = stop CapturedBySink step q (divByZero (field_at cs q)))"
proof (cases "0 \<le> n")
  case True
  from trace_steps_bounds [OF True, of cs p] trace_steps_cause [of cs n 0 p]
    trace_steps_starts [of _ cs n 0 p] True
  have "let r = trace_steps cs n 0 p in
      0 \<le> endStep r \<and> endStep r \<le> max 0 n
      \<and> int (length (segments r)) = endStep r
      \<and> (outcome r = CapturedBySink \<longrightarrow> endStep r < n \<and> near_sink cs (endPoint r))
      \<and> (outcome r = FieldVanished \<longrightarrow> endStep r < n \<and> magSq (field_at cs (endPoint r)) < 1 / 10 ^ 12)
      \<and> (outcome r = EscapedBoundary \<longrightarrow> endStep r < n \<and> escaped (endPoint r))
      \<and> (outcome r = StepBudgetExhausted \<longrightarrow> endStep r = max 0 n)
      \<and> (\<forall>sg \<in> set (segments r). \<not> near_sink cs (seg_start sg))"
    unfolding Let_def by (cases "outcome (trace_steps cs n 0 p)") auto
  then show ?thesis by (simp add: trace_steps_captured)
next
  case False
  then have "trace_steps cs n 0 p = stop StepBudgetExhausted 0 p False"
    by (simp add: trace_steps_done)
  with False show ?thesis by (simp add: stop_def trace_steps_captured)
qed

theorem trace_terminates_witness:
  "outcome (trace_steps [\<lparr>position = Vector3 0 0 0, val = - 1\<rparr>] 3000 7 (Vector3 (1 / 10) 0 0)) = CapturedBySink
   \<and> segments (trace_steps [\<lparr>position = Vector3 0 0 0, val = - 1\<rparr>] 3000 7 (Vector3 (1 / 10) 0 0)) = []
   \<and> endStep (trace_steps [\<lparr>position = Vector3 0 0 0, val = - 1\<rparr>] 3000 7 (Vector3 (1 / 10) 0 0)) = 7
   \<and> endStep (trace_steps [\<lparr>position = Vector3 0 0 0, val = - 1\<rparr>] 3000 0 (Vector3 (1 / 10) 0 0)) \<le> 3000"
  using trace_terminates [of "[\<lparr>position = Vector3 0 0 0, val = - 1\<rparr>]" 3000 "Vector3 (1 / 10) 0 0" 7 "Vector3 (1 / 10) 0 0"]
  by (simp add: near_sink_def dist2_def stop_def Let_def)

section \<open>Properties of the geometry utilities and of the colour grading\<close>

lemma Clamp_max_min: "lo \<le> hi \<Longrightarrow> Clamp v lo hi = max lo (min hi v)"
  by (auto simp: Clamp_def Let_def)

text \<open>
  Claim C7. The ray from \<open>(3, 5, 4)\<close> with direction \<open>(0, -1, 0)\<close> meets the ground at
  \<open>(3, 0, 4)\<close>, and the ray from the same origin with direction \<open>(0, 1, 0)\<close> has no
  intersection. For every ray, \<open>GetGroundIntersection\<close> reports no intersection
  exactly when \<open>|direction.y| < 0.001\<close> or \<open>t = -origin.y / direction.y\<close> is negative;
  otherwise the point it returns has \<open>y = 0\<close> and its \<open>x\<close> and \<open>z\<close> are those of the
  ray at \<open>t\<close>, clamped to \<open>[-50, 50]\<close>.
\<close>

theorem ground_intersection:
  "GetGroundIntersection (Ray (Vector3 3 5 4) (Vector3 0 (- 1) 0)) = Some (Vector3 3 0 4)
   \<and> GetGroundIntersection (Ray (Vector3 3 5 4) (Vector3 0 1 0)) = None
   \<and> (GetGroundIntersection (Ray orig dir) = None \<longleftrightarrow>
        \<bar>vec_y dir\<bar> < 0.001 \<or> - vec_y orig / vec_y dir < 0)
   \<and> (\<forall>pos. GetGroundIntersection (Ray orig dir) = Some pos \<longrightarrow>
        vec_y pos = 0
        \<and> vec_x pos = max (- 50) (min 50 (vec_x orig + vec_x dir * (- vec_y orig / vec_y dir)))
        \<and> vec_z pos = max (- 50) (min 50 (vec_z orig + vec_z dir * (- vec_y orig / vec_y dir)))
        \<and> - 50 \<le> vec_x pos \<and> vec_x pos \<le> 50 \<and> - 50 \<le> vec_z pos \<and> vec_z pos \<le> 50)"
  by (auto simp: GetGroundIntersection_def Let_def Clamp_max_min)

theorem ground_intersection_witness:
  "GetGroundIntersection (Ray (Vector3 100 10 (- 70)) (Vector3 1 (- 2) (- 3))) = Some (Vector3 50 0 (- 50))"
  using ground_intersection [of "Vector3 100 10 (- 70)" "Vector3 1 (- 2) (- 3)"]
  by (simp add: GetGroundIntersection_def Clamp_def)

lemma lerp_channel_uint:
  assumes "0 \<le> i" "i \<le> 256"
  shows "uint (lerp_channel a b i) = (uint a * (256 - i) + uint b * i) div 256"
proof -
  have a: "0 \<le> uint a" "uint a \<le> 255" and b: "0 \<le> uint b" "uint b \<le> 255"
    using uint_bounded [of a] uint_bounded [of b] by simp_all
  have "uint a * (256 - i) \<le> 255 * (256 - i)"
    using a assms by (intro mult_right_mono) simp_all
  moreover have "uint b * i \<le> 255 * i"
    using b assms by (intro mult_right_mono) simp_all
  ultimately have le: "uint a * (256 - i) + uint b * i \<le> 255 * 256" by simp
  have ge: "0 \<le> uint a * (256 - i) + uint b * i"
    using a b assms by simp
  have "0 \<le> (uint a * (256 - i) + uint b * i) div 256"
    using ge by (simp add: pos_imp_zdiv_nonneg_iff)
  moreover have "(uint a * (256 - i) + uint b * i) div 256 < 256"
    using le by (simp add: div_less_iff_less_mult)
  ultimately show ?thesis
    by (simp add: lerp_channel_def Let_def uint_word_of_int take_bit_int_eq_self)
qed

lemma lerp_channel_close:
  assumes "0 < t" "t < 1"
  shows "\<bar>real_of_int (uint (lerp_channel a b \<lfloor>t * 256\<rfloor>)) - ((1 - t) * real_of_int (uint a) + t * real_of_int (uint b))\<bar> < 2"
proof -
  define i where "i = \<lfloor>t * 256\<rfloor>"
  define A where "A = uint a"
  define B where "B = uint b"
  have i: "0 \<le> i" "i \<le> 256" using assms by (simp_all add: i_def le_floor_iff floor_le_iff)
  have AB: "0 \<le> A" "A \<le> 255" "0 \<le> B" "B \<le> 255"
    using uint_bounded [of a] uint_bounded [of b] by (simp_all add: A_def B_def)
  have it: "real_of_int i \<le> t * 256" "t * 256 < real_of_int i + 1"
    unfolding i_def by linarith+
  define E where "E = real_of_int (A * (256 - i) + B * i) / 256"
  define F where "F = (A * (256 - i) + B * i) div 256"
  have F: "real_of_int F \<le> E" "E < real_of_int F + 1"
  proof -
    have "F = \<lfloor>E\<rfloor>"
      unfolding E_def F_def using floor_divide_of_int_eq [of "A * (256 - i) + B * i" 256, where ?'a = real]
      by simp
    then show "real_of_int F \<le> E" "E < real_of_int F + 1" by linarith+
  qed
  have E: "E = real_of_int A + (real_of_int B - real_of_int A) * (real_of_int i / 256)"
    by (simp add: E_def field_simps)
  define d where "d = t - real_of_int i / 256"
  have d: "0 \<le> d" "d < 1 / 256" using it by (simp_all add: d_def field_simps)
  have L: "(1 - t) * real_of_int A + t * real_of_int B = E + (real_of_int B - real_of_int A) * d"
    by (simp add: E d_def algebra_simps)
  have "\<bar>(real_of_int B - real_of_int A) * d\<bar> \<le> 255 * d"
    using AB d by (simp add: abs_mult mult_right_mono)
  then have "\<bar>(real_of_int B - real_of_int A) * d\<bar> < 1" using d by linarith
  with F L have "\<bar>real_of_int F - ((1 - t) * real_of_int A + t * real_of_int B)\<bar> < 2"
    by linarith
  then show ?thesis
    using lerp_channel_uint [OF i, of a b] by (simp add: F_def A_def B_def i_def)
qed

text \<open>
  Claim C8. \<open>CustomColorLerp A B t\<close> is \<open>A\<close> itself for \<open>t \<le> 0\<close> and \<open>B\<close> itself for
  \<open>t \<ge> 1\<close>. For \<open>0 < t < 1\<close> its alpha is 255 (opaque) and each of its other
  channels is the linear interpolation in fixed point, with the weight
  \<open>\<lfloor>256 t\<rfloor> / 256\<close>: \<open>(a (256 - \<lfloor>256 t\<rfloor>) + b \<lfloor>256 t\<rfloor>) div 256\<close>, which is less than
  two units away from the exact interpolation \<open>(1 - t) a + t b\<close>.
\<close>

theorem blend_endpoints:
  "(t \<le> 0 \<longrightarrow> CustomColorLerp A B t = A)
   \<and> (t \<ge> 1 \<longrightarrow> CustomColorLerp A B t = B)
   \<and> (0 < t \<and> t < 1 \<longrightarrow>
        col_a (CustomColorLerp A B t) = 255
        \<and> uint (col_r (CustomColorLerp A B t)) =
            (uint (col_r A) * (256 - \<lfloor>t * 256\<rfloor>) + uint (col_r B) * \<lfloor>t * 256\<rfloor>) div 256
        \<and> uint (col_g (CustomColorLerp A B t)) =
            (uint (col_g A) * (256 - \<lfloor>t * 256\<rfloor>) + uint (col_g B) * \<lfloor>t * 256\<rfloor>) div 256
        \<and> uint (col_b (CustomColorLerp A B t)) =
            (uint (col_b A) * (256 - \<lfloor>t * 256\<rfloor>) + uint (col_b B) * \<lfloor>t * 256\<rfloor>) div 256
        \<and> \<bar>real_of_int (uint (col_r (CustomColorLerp A B t)))
             - ((1 - t) * real_of_int (uint (col_r A)) + t * real_of_int (uint (col_r B)))\<bar> < 2
        \<and> \<bar>real_of_int (uint (col_g (CustomColorLerp A B t)))
             - ((1 - t) * real_of_int (uint (col_g A)) + t * real_of_int (uint (col_g B)))\<bar> < 2
        \<and> \<bar>real_of_int (uint (col_b (CustomColorLerp A B t)))
             - ((1 - t) * real_of_int (uint (col_b A)) + t * real_of_int (uint (col_b B)))\<bar> < 2)"
proof (intro conjI impI)
  show "CustomColorLerp A B t = A" if "t \<le> 0"
    using that by (simp add: CustomColorLerp_def)
  show "CustomColorLerp A B t = B" if "t \<ge> 1"
    using that by (simp add: CustomColorLerp_def)
  assume t: "0 < t \<and> t < 1"
  then have i: "0 \<le> \<lfloor>t * 256\<rfloor>" "\<lfloor>t * 256\<rfloor> \<le> 256"
    by (simp_all add: le_floor_iff floor_le_iff)
  from t have eq: "CustomColorLerp A B t =
      Color (lerp_channel (col_r A) (col_r B) \<lfloor>t * 256\<rfloor>)
            (lerp_channel (col_g A) (col_g B) \<lfloor>t * 256\<rfloor>)
            (lerp_channel (col_b A) (col_b B) \<lfloor>t * 256\<rfloor>) 255"
    by (simp add: CustomColorLerp_def Let_def)
  show "col_a (CustomColorLerp A B t) = 255"
    by (simp only: eq Color.sel)
  show "uint (col_r (CustomColorLerp A B t)) =
      (uint (col_r A) * (256 - \<lfloor>t * 256\<rfloor>) + uint (col_r B) * \<lfloor>t * 256\<rfloor>) div 256"
    by (simp only: eq Color.sel lerp_channel_uint [OF i])
  show "uint (col_g (CustomColorLerp A B t)) =
      (uint (col_g A) * (256 - \<lfloor>t * 256\<rfloor>) + uint (col_g B) * \<lfloor>t * 256\<rfloor>) div 256"
    by (simp only: eq Color.sel lerp_channel_uint [OF i])
  show "uint (col_b (CustomColorLerp A B t)) =
      (uint (col_b A) * (256 - \<lfloor>t * 256\<rfloor>) + uint (col_b B) * \<lfloor>t * 256\<rfloor>) div 256"
    by (simp only: eq Color.sel lerp_channel_uint [OF i])
  from t have t': "0 < t" "t < 1" by simp_all
  show "\<bar>real_of_int (uint (col_r (CustomColorLerp A B t)))
      - ((1 - t) * real_of_int (uint (col_r A)) + t * real_of_int (uint (col_r B)))\<bar> < 2"
    unfolding eq Color.sel by (rule lerp_channel_close [OF t'])
  show "\<bar>real_of_int (uint (col_g (CustomColorLerp A B t)))
      - ((1 - t) * real_of_int (uint (col_g A)) + t * real_of_int (uint (col_g B)))\<bar> < 2"
    unfolding eq Color.sel by (rule lerp_channel_close [OF t'])
  show "\<bar>real_of_int (uint (col_b (CustomColorLerp A B t)))
      - ((1 - t) * real_of_int (uint (col_b A)) + t * real_of_int (uint (col_b B)))\<bar> < 2"
    unfolding eq Color.sel by (rule lerp_channel_close [OF t'])
qed

theorem blend_endpoints_witness:
  "CustomColorLerp BLUE RED 0 = BLUE \<and> CustomColorLerp BLUE RED 1 = RED
   \<and> CustomColorLerp BLUE RED (1 / 2) = Color 115 81 148 255"
proof -
  have "CustomColorLerp BLUE RED (1 / 2) = Color 115 81 148 255"
    by (simp add: CustomColorLerp_def lerp_channel_def BLUE_def RED_def)
  with blend_endpoints [of 0 BLUE RED] blend_endpoints [of 1 BLUE RED] show ?thesis
    by simp
qed

section \<open>Properties of the charge store and of the editing controller\<close>

lemma shift_left_length: "length (shift_left cs n k) = length cs"
  by (induction cs n k rule: shift_left.induct) (subst shift_left.simps, simp)

lemma shift_left_nth:
  "0 \<le> k \<Longrightarrow> n \<le> int (length cs) \<Longrightarrow> j < length cs \<Longrightarrow>
     shift_left cs n k ! j = (if k \<le> int j \<and> int j < n - 1 then cs ! (j + 1) else cs ! j)"
proof (induction cs n k rule: shift_left.induct)
  case (1 cs n k)
  show ?case
  proof (cases "k < n - 1")
    case False
    then show ?thesis by (subst shift_left.simps) auto
  next
    case True
    have nk: "nat (k + 1) = nat k + 1" using "1.prems" by simp
    have "shift_left cs n k ! j = shift_left (cs[nat k := cs ! nat (k + 1)]) n (k + 1) ! j"
      using True by (subst shift_left.simps) simp
    also have "\<dots> = (if k + 1 \<le> int j \<and> int j < n - 1
         then (cs[nat k := cs ! nat (k + 1)]) ! (j + 1) else (cs[nat k := cs ! nat (k + 1)]) ! j)"
      using "1.IH" [OF True] "1.prems" by simp
    also have "\<dots> = (if k \<le> int j \<and> int j < n - 1 then cs ! (j + 1) else cs ! j)"
      using True "1.prems" nk by (auto simp: nth_list_update)
    finally show ?thesis .
  qed
qed

lemma shift_left_live:
  assumes "0 \<le> i" "i < n" "n \<le> int (length cs)"
  shows "take (nat (n - 1)) (shift_left cs n i) = take (nat i) (take (nat n) cs) @ drop (nat i + 1) (take (nat n) cs)"
proof (rule nth_equalityI)
  show len: "length (take (nat (n - 1)) (shift_left cs n i)) =
      length (take (nat i) (take (nat n) cs) @ drop (nat i + 1) (take (nat n) cs))"
    using assms by (simp add: shift_left_length)
  fix j assume "j < length (take (nat (n - 1)) (shift_left cs n i))"
  then have j: "int j < n - 1" "j < length cs" using assms by (simp_all add: shift_left_length)
  then have "take (nat (n - 1)) (shift_left cs n i) ! j = (if i \<le> int j then cs ! (j + 1) else cs ! j)"
    using assms by (simp add: shift_left_nth)
  also have "\<dots> = (take (nat i) (take (nat n) cs) @ drop (nat i + 1) (take (nat n) cs)) ! j"
  proof (cases "i \<le> int j")
    case True
    then have "nat i + 1 + (j - nat i) = j + 1" "j + 1 < nat n" "\<not> j < nat i"
      using assms j by simp_all
    then show ?thesis
      using True assms j by (simp add: nth_append min_def)
  next
    case False
    then show ?thesis
      using assms j by (simp add: nth_append min_def)
  qed
  finally show "take (nat (n - 1)) (shift_left cs n i) ! j =
      (take (nat i) (take (nat n) cs) @ drop (nat i + 1) (take (nat n) cs)) ! j" .
qed

text \<open>
  Claim C6. Removing the charge at an index \<open>i\<close> with \<open>0 \<le> i < numCharges\<close> lowers
  \<open>numCharges\<close> by exactly one, and the live charges afterwards are the live charges
  before without the entry \<open>i\<close>, in the same order: every entry before \<open>i\<close> stays
  where it is and every entry after \<open>i\<close> moves one position to the left.
\<close>

theorem remove_compacts:
  assumes "0 \<le> i" and "i < numCharges s" and "numCharges s \<le> int (length (charges s))"
  shows "numCharges (delete_charge i s) = numCharges s - 1
    \<and> length (live (delete_charge i s)) + 1 = length (live s)
    \<and> live (delete_charge i s) = take (nat i) (live s) @ drop (nat i + 1) (live s)
    \<and> (\<forall>j < nat i. live (delete_charge i s) ! j = live s ! j)
    \<and> (\<forall>j. nat i \<le> j \<and> j < length (live (delete_charge i s)) \<longrightarrow>
          live (delete_charge i s) ! j = live s ! (j + 1))"
proof -
  have eq: "live (delete_charge i s) = take (nat i) (live s) @ drop (nat i + 1) (live s)"
    using shift_left_live [OF assms] by (simp add: live_def delete_charge_def)
  have len: "length (live s) = nat (numCharges s)"
    using assms by (simp add: live_def)
  have i: "nat i < length (live s)" using assms len by simp
  have n: "numCharges (delete_charge i s) = numCharges s - 1"
    by (simp add: delete_charge_def)
  show ?thesis
    unfolding eq n using i by (auto simp add: nth_append min_def)
qed

lemma live_init_state: "live init_state = start_charges"
  by (simp add: live_def init_state_def start_charges_def)

theorem remove_compacts_witness:
  "numCharges (delete_charge 0 init_state) = 1
   \<and> live (delete_charge 0 init_state) = [\<lparr>position = Vector3 8 0 0, val = - 2\<rparr>]"
proof -
  have "(0::int) \<le> 0" "0 < numCharges init_state"
    "numCharges init_state \<le> int (length (charges init_state))"
    by (simp_all add: init_state_def start_charges_def)
  from remove_compacts [OF this] show ?thesis
    by (simp add: live_init_state) (simp add: init_state_def start_charges_def)
qed

text \<open>
  The scan returns \<open>-1\<close> or the index of a live charge under the pointer, so the
  deletion of the right click removes a live charge, and the frame keeps the store
  well formed.
\<close>

lemma pick_charge_range:
  "0 \<le> i \<Longrightarrow> pick_charge over cs n i = - 1
     \<or> (i \<le> pick_charge over cs n i \<and> pick_charge over cs n i < n
        \<and> over (position (cs ! nat (pick_charge over cs n i))))"
proof (induction over cs n i rule: pick_charge.induct)
  case (1 over cs n i)
  show ?case
  proof (cases "i < n")
    case False
    then show ?thesis by (subst (1) pick_charge.simps) simp
  next
    case True
    show ?thesis
    proof (cases "over (position (cs ! nat i))")
      case hit: True
      with True have "pick_charge over cs n i = i" by (subst pick_charge.simps) simp
      with True hit show ?thesis by simp
    next
      case miss: False
      with True have eq: "pick_charge over cs n i = pick_charge over cs n (i + 1)"
        by (subst pick_charge.simps) simp
      from "1.IH" [OF True miss] "1.prems" show ?thesis
        unfolding eq by auto
    qed
  qed
qed

lemma store_ok_left_click: "store_ok s \<Longrightarrow> store_ok (left_click strtof inp s)"
  by (auto simp: store_ok_def left_click_def reset_input_def add_charge_def Let_def
      split: option.splits)

lemma store_ok_drag: "store_ok s \<Longrightarrow> store_ok (drag inp s)"
  by (auto simp: store_ok_def drag_def split: option.splits)

lemma store_ok_right_click:
  assumes "store_ok s"
  shows "store_ok (right_click inp s)"
proof -
  from pick_charge_range [of 0 "overCharge inp" "charges s" "numCharges s"]
  have "pick_charge (overCharge inp) (charges s) (numCharges s) 0 \<noteq> - 1 \<Longrightarrow> 0 < numCharges s"
    by auto
  with assms show ?thesis
    by (auto simp: store_ok_def right_click_def delete_charge_def shift_left_length Let_def)
qed

lemma store_ok_adjust_parameters: "store_ok s \<Longrightarrow> store_ok (adjust_parameters inp s)"
  by (auto simp: store_ok_def adjust_parameters_def Let_def)

lemma store_ok_toggle_camera: "store_ok s \<Longrightarrow> store_ok (toggle_camera inp s)"
  by (auto simp: store_ok_def toggle_camera_def Let_def)

lemma type_chars_store:
  "charges (type_chars keys s) = charges s \<and> numCharges (type_chars keys s) = numCharges s"
  by (induction keys arbitrary: s) (simp_all add: type_char_def)

lemma store_ok_typing_commit: "store_ok s \<Longrightarrow> store_ok (typing_commit strtof inp s)"
  by (auto simp: store_ok_def typing_commit_def add_charge_def Let_def split: option.splits)

lemma store_ok_typing:
  assumes "store_ok s"
  shows "store_ok (typing strtof inp s)"
proof -
  have "store_ok (type_chars (charsPressed inp) s)"
    using assms by (simp add: store_ok_def type_chars_store)
  then have "store_ok (backspace inp (type_chars (charsPressed inp) s))"
    by (simp add: store_ok_def backspace_def)
  then have "store_ok (typing_commit strtof inp (backspace inp (type_chars (charsPressed inp) s)))"
    by (rule store_ok_typing_commit)
  then show ?thesis
    using assms by (simp add: typing_def Let_def store_ok_def)
qed

lemma store_ok_update: "store_ok s \<Longrightarrow> store_ok (update strtof inp s)"
  unfolding update_def Let_def
  by (intro store_ok_typing)
    (simp add: store_ok_toggle_camera store_ok_adjust_parameters store_ok_left_click
      store_ok_drag store_ok_right_click)

lemma store_ok_init_state: "store_ok init_state"
  by (simp add: store_ok_def init_state_def start_charges_def MAX_CHARGES_def)

lemma right_click_compacts:
  assumes "store_ok s" and "pick_charge (overCharge inp) (charges s) (numCharges s) 0 = i" and "i \<noteq> - 1"
  shows "numCharges (right_click inp s) = numCharges s - 1
    \<and> live (right_click inp s) = take (nat i) (live s) @ drop (nat i + 1) (live s)"
proof -
  from pick_charge_range [of 0 "overCharge inp" "charges s" "numCharges s"] assms
  have i: "0 \<le> i" "i < numCharges s" by auto
  have n: "numCharges s \<le> int (length (charges s))"
    using assms(1) by (simp add: store_ok_def)
  have "right_click inp s = delete_charge i s"
    using assms by (simp add: right_click_def)
  then show ?thesis
    using shift_left_live [OF i n] by (simp add: live_def delete_charge_def)
qed

lemma pick_charge_never: "(\<And>pos. \<not> over pos) \<Longrightarrow> pick_charge over cs n i = - 1"
  by (induction over cs n i rule: pick_charge.induct) (subst pick_charge.simps, simp)

text \<open>
  Claim C5. When the store already holds 100 charges, or when the value that
  \<open>strtof\<close> reads from the input buffer is 0, neither commit path adds a charge:
  the click handler of the mouse mode (which contains the click on empty space
  while typing) and the click handled inside the typing block both leave the
  array \<open>charges\<close> and the count \<open>numCharges\<close> as they were.
\<close>

theorem add_rejected:
  assumes "numCharges s = 100 \<or> strtof (c_string (chargeInput s)) = 0"
  shows "charges (left_click strtof inp s) = charges s
    \<and> numCharges (left_click strtof inp s) = numCharges s
    \<and> charges (typing_commit strtof inp s) = charges s
    \<and> numCharges (typing_commit strtof inp s) = numCharges s"
  using assms
  by (auto simp: left_click_def typing_commit_def reset_input_def MAX_CHARGES_def Let_def
      split: option.splits)

theorem add_rejected_witness:
  "numCharges (left_click (\<lambda>str. 5) (idle_input\<lparr>mouseLeftPressed := True\<rparr>) full_state) = 100
   \<and> charges (left_click (\<lambda>str. 5) (idle_input\<lparr>mouseLeftPressed := True\<rparr>) full_state) = charges full_state
   \<and> isTyping (left_click (\<lambda>str. 5) (idle_input\<lparr>mouseLeftPressed := True\<rparr>) full_state) = False
   \<and> numCharges (typing_commit (\<lambda>str. 0) (idle_input\<lparr>keyMouseLeft := True\<rparr>) init_state) = 2"
proof -
  have "numCharges full_state = 100 \<or> (\<lambda>str. 5 :: real) (c_string (chargeInput full_state)) = 0"
    by (simp add: full_state_def)
  note a = add_rejected [OF this, of "idle_input\<lparr>mouseLeftPressed := True\<rparr>"]
  have "numCharges init_state = 100 \<or> (\<lambda>str. 0 :: real) (c_string (chargeInput init_state)) = 0"
    by simp
  note b = add_rejected [OF this, of "idle_input\<lparr>keyMouseLeft := True\<rparr>"]
  have "isTyping (left_click (\<lambda>str. 5) (idle_input\<lparr>mouseLeftPressed := True\<rparr>) full_state) = False"
    by (simp add: left_click_def full_state_def idle_input_def pick_charge_never
        GetGroundIntersection_def Clamp_def MAX_CHARGES_def reset_input_def)
  with a b show ?thesis
    by (simp add: full_state_def init_state_def)
qed

lemma accepted_key_range: "accepted_key key \<Longrightarrow> 45 \<le> key \<and> key \<le> 57"
  by (auto simp: accepted_key_def)

lemma accepted_key_mod: "accepted_key key \<Longrightarrow> key mod 256 = key"
  by (drule accepted_key_range) simp

lemma accepted_not_NUL: "accepted_key (of_char c) \<Longrightarrow> c \<noteq> NUL"
  by (auto simp: NUL_def dest: accepted_key_range)

lemma c_string_input_ok:
  assumes "input_ok s"
  shows "c_string (chargeInput s) = take (nat (inputLength s)) (chargeInput s)"
  unfolding c_string_def
proof (rule takeWhile_eq_take_P_nth)
  fix i assume "i < nat (inputLength s)"
  with assms show "chargeInput s ! i \<noteq> NUL"
    by (simp add: input_ok_def accepted_not_NUL)
next
  from assms show "\<not> chargeInput s ! nat (inputLength s) \<noteq> NUL"
    by (simp add: input_ok_def)
qed

lemma input_ok_type_char:
  assumes "input_ok s"
  shows "input_ok (type_char key s)"
proof (cases "accepted_key key \<and> inputLength s < 10")
  case False
  with assms show ?thesis by (auto simp: type_char_def)
next
  case True
  then have n: "nat (inputLength s + 1) = Suc (nat (inputLength s))"
    using assms by (simp add: input_ok_def nat_add_distrib)
  show ?thesis
    using True assms
    by (auto simp add: type_char_def input_ok_def n nth_list_update less_Suc_eq accepted_key_mod)
qed

lemma input_ok_type_chars: "input_ok s \<Longrightarrow> input_ok (type_chars keys s)"
  by (induction keys arbitrary: s) (simp_all add: input_ok_type_char)

lemma input_ok_backspace:
  assumes "input_ok s"
  shows "input_ok (backspace inp s)"
  using assms by (auto simp: backspace_def input_ok_def nth_list_update)

lemma input_ok_buffer:
  "input_ok s \<Longrightarrow> chargeInput s' = chargeInput s \<Longrightarrow> inputLength s' = inputLength s \<Longrightarrow> input_ok s'"
  by (simp add: input_ok_def)

lemma typing_commit_buffer:
  "chargeInput (typing_commit strtof inp s) = chargeInput s
   \<and> inputLength (typing_commit strtof inp s) = inputLength s"
  by (simp add: typing_commit_def add_charge_def Let_def split: option.splits)

lemma input_ok_typing:
  assumes "input_ok s"
  shows "input_ok (typing strtof inp s)"
proof -
  have "input_ok (backspace inp (type_chars (charsPressed inp) s))"
    by (simp add: assms input_ok_type_chars input_ok_backspace)
  then have "input_ok (typing_commit strtof inp (backspace inp (type_chars (charsPressed inp) s)))"
    by (rule input_ok_buffer) (simp_all add: typing_commit_buffer)
  then show ?thesis
    using assms by (auto simp: typing_def Let_def elim: input_ok_buffer)
qed

lemma input_ok_reset_input: "length (chargeInput s) = 16 \<Longrightarrow> input_ok (reset_input s)"
  by (simp add: input_ok_def reset_input_def)

lemma input_ok_left_click:
  assumes "input_ok s"
  shows "input_ok (left_click strtof inp s)"
proof -
  have len: "length (chargeInput s) = 16" using assms by (simp add: input_ok_def)
  show ?thesis
    using assms len
    by (auto simp: left_click_def Let_def add_charge_def input_ok_reset_input
        split: option.splits elim: input_ok_buffer)
qed

lemma input_ok_drag: "input_ok s \<Longrightarrow> input_ok (drag inp s)"
  by (auto simp: drag_def split: option.splits elim: input_ok_buffer)

lemma input_ok_right_click: "input_ok s \<Longrightarrow> input_ok (right_click inp s)"
  by (auto simp: right_click_def delete_charge_def Let_def elim: input_ok_buffer)

lemma input_ok_adjust_parameters: "input_ok s \<Longrightarrow> input_ok (adjust_parameters inp s)"
  by (auto simp: adjust_parameters_def Let_def elim: input_ok_buffer)

lemma input_ok_toggle_camera: "input_ok s \<Longrightarrow> input_ok (toggle_camera inp s)"
  by (auto simp: toggle_camera_def Let_def elim: input_ok_buffer)

lemma input_ok_update:
  assumes "input_ok s"
  shows "input_ok (update strtof inp s)"
  unfolding update_def Let_def
  by (intro input_ok_typing)
    (simp add: assms input_ok_toggle_camera input_ok_adjust_parameters input_ok_left_click
      input_ok_drag input_ok_right_click)

lemma type_char_appends:
  assumes "input_ok s" "accepted_key key" "inputLength s < 10"
  shows "c_string (chargeInput (type_char key s)) = c_string (chargeInput s) @ [char_of key]"
proof -
  have ok': "input_ok (type_char key s)" using assms(1) by (rule input_ok_type_char)
  have n: "nat (inputLength s + 1) = Suc (nat (inputLength s))"
    using assms by (simp add: input_ok_def nat_add_distrib)
  have len: "nat (inputLength s) < length (chargeInput s)"
    using assms unfolding input_ok_def by linarith
  have "c_string (chargeInput (type_char key s)) =
      take (nat (inputLength (type_char key s))) (chargeInput (type_char key s))"
    by (rule c_string_input_ok [OF ok'])
  also have "\<dots> = take (Suc (nat (inputLength s))) ((chargeInput s)[nat (inputLength s) := char_of key])"
    using assms by (simp add: type_char_def n)
  also have "\<dots> = take (nat (inputLength s)) (chargeInput s) @ [char_of key]"
    using len by (simp add: take_Suc_conv_app_nth)
  finally show ?thesis by (simp add: c_string_input_ok [OF assms(1)])
qed

lemma backspace_removes_last:
  assumes "input_ok s" "keyBackspace inp" "inputLength s > 0"
  shows "c_string (chargeInput (backspace inp s)) = butlast (c_string (chargeInput s))"
proof -
  have ok': "input_ok (backspace inp s)" using assms(1) by (rule input_ok_backspace)
  have len: "nat (inputLength s) < length (chargeInput s)"
    using assms unfolding input_ok_def by linarith
  have "c_string (chargeInput (backspace inp s)) =
      take (nat (inputLength (backspace inp s))) (chargeInput (backspace inp s))"
    by (rule c_string_input_ok [OF ok'])
  also have "\<dots> = take (nat (inputLength s - 1)) (chargeInput s)"
    using assms by (simp add: backspace_def)
  also have "\<dots> = butlast (take (nat (inputLength s)) (chargeInput s))"
    using assms len by (simp add: butlast_take nat_diff_distrib)
  finally show ?thesis by (simp add: c_string_input_ok [OF assms(1)])
qed

text \<open>
  Claim C10. Every operation of the typing block, and the whole input handling of
  a frame, keeps the input buffer well formed (\<open>input_ok\<close>): 16 bytes, a length
  between 0 and 10, the terminator at index \<open>inputLength\<close>, accepted characters
  before it. In a well-formed buffer the C string is the first \<open>inputLength\<close> bytes.
  A key is appended only if it is a digit, \<^verbatim>\<open>.\<close> or \<^verbatim>\<open>-\<close> and the length is below 10;
  the two bytes then written lie inside the buffer, and the string grows by that
  character; any other key changes nothing. Backspace on a non-empty buffer
  removes exactly the last character.
\<close>

theorem input_buffer_invariant:
  assumes "input_ok s"
  shows "input_ok (type_char key s)
    \<and> input_ok (type_chars keys s)
    \<and> input_ok (backspace inp s)
    \<and> input_ok (typing strtof inp s)
    \<and> input_ok (update strtof inp s)
    \<and> c_string (chargeInput s) = take (nat (inputLength s)) (chargeInput s)
    \<and> (accepted_key key \<and> inputLength s < 10 \<longrightarrow>
          nat (inputLength s + 1) < length (chargeInput s)
          \<and> inputLength (type_char key s) = inputLength s + 1
          \<and> c_string (chargeInput (type_char key s)) = c_string (chargeInput s) @ [char_of key])
    \<and> (\<not> (accepted_key key \<and> inputLength s < 10) \<longrightarrow> type_char key s = s)
    \<and> (keyBackspace inp \<and> inputLength s > 0 \<longrightarrow>
          inputLength (backspace inp s) = inputLength s - 1
          \<and> c_string (chargeInput (backspace inp s)) = butlast (c_string (chargeInput s)))"
proof (intro conjI impI)
  show "input_ok (type_char key s)" using assms by (rule input_ok_type_char)
  show "input_ok (type_chars keys s)" using assms by (rule input_ok_type_chars)
  show "input_ok (backspace inp s)" using assms by (rule input_ok_backspace)
  show "input_ok (typing strtof inp s)" using assms by (rule input_ok_typing)
  show "input_ok (update strtof inp s)" using assms by (rule input_ok_update)
  show "c_string (chargeInput s) = take (nat (inputLength s)) (chargeInput s)"
    using assms by (rule c_string_input_ok)
  show "nat (inputLength s + 1) < length (chargeInput s)"
    using assms unfolding input_ok_def by linarith
  show "inputLength (type_char key s) = inputLength s + 1"
    if "accepted_key key \<and> inputLength s < 10"
    using that by (simp add: type_char_def)
  show "c_string (chargeInput (type_char key s)) = c_string (chargeInput s) @ [char_of key]"
    if "accepted_key key \<and> inputLength s < 10"
    using assms that by (simp add: type_char_appends)
  show "type_char key s = s" if "\<not> (accepted_key key \<and> inputLength s < 10)"
    using that by (auto simp add: type_char_def)
  show "inputLength (backspace inp s) = inputLength s - 1"
    if "keyBackspace inp \<and> inputLength s > 0"
    using that by (simp add: backspace_def)
  show "c_string (chargeInput (backspace inp s)) = butlast (c_string (chargeInput s))"
    if "keyBackspace inp \<and> inputLength s > 0"
    using assms that by (simp add: backspace_removes_last)
qed

theorem input_buffer_invariant_witness:
  "input_ok init_state
   \<and> c_string (chargeInput (type_chars [of_char CHR ''-'', of_char CHR ''x'', of_char CHR ''2''] init_state)) = ''-2''
   \<and> c_string (chargeInput (backspace (idle_input\<lparr>keyBackspace := True\<rparr>) full_state)) = []"
proof -
  have ok: "input_ok init_state"
    by (simp add: input_ok_def init_state_def)
  have ok': "input_ok full_state"
    by (simp add: input_ok_def full_state_def accepted_key_def)
  have "c_string (chargeInput (type_chars [of_char CHR ''-'', of_char CHR ''x'', of_char CHR ''2''] init_state)) = ''-2''"
    by code_simp
  moreover have "c_string (chargeInput (backspace (idle_input\<lparr>keyBackspace := True\<rparr>) full_state)) = []"
    using input_buffer_invariant [OF ok', of 0 "[]" "idle_input\<lparr>keyBackspace := True\<rparr>"]
    by (simp add: idle_input_def) (simp add: full_state_def c_string_def NUL_def)
  ultimately show ?thesis
    using ok input_buffer_invariant [OF ok] by simp
qed

lemma mouse_mode_state:
  "update strtof (idle_input\<lparr>keyF := True\<rparr>) init_state = init_state\<lparr>freeCameraMode := False\<rparr>"
  by (simp add: update_def toggle_camera_def adjust_parameters_def drag_def typing_def
      idle_input_def init_state_def)

lemma dragging_state:
  "update strtof press_left_on_sink (init_state\<lparr>freeCameraMode := False\<rparr>)
     = init_state\<lparr>freeCameraMode := False, selectedCharge := 1\<rparr>"
  by (simp add: update_def toggle_camera_def adjust_parameters_def left_click_def drag_def
      typing_def press_left_on_sink_def over_sink_def idle_input_def init_state_def
      start_charges_def pick_charge.simps GetGroundIntersection_def Clamp_def Let_def)

lemma deleted_state:
  "update strtof press_right_while_dragging (init_state\<lparr>freeCameraMode := False, selectedCharge := 1\<rparr>)
     = init_state\<lparr>freeCameraMode := False, selectedCharge := 1, numCharges := 1\<rparr>"
  by (simp add: update_def toggle_camera_def adjust_parameters_def drag_def right_click_def
      delete_charge_def typing_def press_right_while_dragging_def over_sink_def idle_input_def
      init_state_def start_charges_def pick_charge.simps GetGroundIntersection_def Clamp_def
      shift_left.simps Let_def)

text \<open>
  Claim C4. The claim is that a deletion by the right button clears the selection,
  so that the selected index is always unset or the index of a live charge. The
  deletion block sets \<open>isTyping\<close> to false and leaves \<open>selectedCharge\<close> as it is,
  in every state and for every input.
  From the start scene: \<^verbatim>\<open>F\<close> switches to the mouse mode, the left button goes down on
  the charge at \<open>(8, 0, 0)\<close> (index 1), which is selected, and the right button is
  pressed over it while the left one is held. The charge is deleted, one charge
  is left, and the selected index is still 1: it is not the index of a live
  charge.
\<close>

theorem selection_survives_deletion:
  "selectedCharge (right_click inp s) = selectedCharge s
   \<and> selection_ok (update strtof press_left_on_sink
      (update strtof (idle_input\<lparr>keyF := True\<rparr>) init_state))
   \<and> selectedCharge (update strtof press_right_while_dragging
      (update strtof press_left_on_sink
        (update strtof (idle_input\<lparr>keyF := True\<rparr>) init_state))) = 1
   \<and> numCharges (update strtof press_right_while_dragging
      (update strtof press_left_on_sink
        (update strtof (idle_input\<lparr>keyF := True\<rparr>) init_state))) = 1
   \<and> \<not> selection_ok (update strtof press_right_while_dragging
      (update strtof press_left_on_sink
        (update strtof (idle_input\<lparr>keyF := True\<rparr>) init_state)))"
proof -
  have "selectedCharge (right_click inp s) = selectedCharge s"
    by (simp add: right_click_def delete_charge_def Let_def)
  then show ?thesis
    by (simp add: mouse_mode_state dragging_state deleted_state selection_ok_def)
      (simp add: init_state_def)
qed

section \<open>Alpha of the emitted segments\<close>

lemma minDistToNeg_foldl:
  "d < minDistToNeg (foldl (field_step p) acc cs) \<longleftrightarrow>
     d < minDistToNeg acc \<and> (\<forall>c \<in> set cs. \<not> val c > 0 \<longrightarrow> d < sqrt (dist2 p (position c)))"
  by (induction cs arbitrary: acc) (auto simp: field_step_def Let_def)

lemma minDistToNeg_field_at:
  "20 < minDistToNeg (field_at cs p) \<longleftrightarrow>
     (\<forall>c \<in> set cs. \<not> val c > 0 \<longrightarrow> 20 < sqrt (dist2 p (position c)))"
  by (simp add: field_at_def minDistToNeg_foldl field_init_def)

lemma seg_alpha_of_spec:
  assumes "\<forall>c \<in> set cs. val c \<noteq> 0"
  shows "seg_alpha_of n step (field_at cs p) = spec_alpha cs n step p"
proof -
  have "(\<forall>c \<in> set cs. \<not> val c > 0 \<longrightarrow> 20 < sqrt (dist2 p (position c)))
      \<longleftrightarrow> (\<forall>c \<in> set cs. val c < 0 \<longrightarrow> 20 < sqrt (dist2 p (position c)))"
    using assms by (auto simp: not_less less_le)
  then show ?thesis
    by (auto simp add: seg_alpha_of_def spec_alpha_def Let_def minDistToNeg_field_at)
qed

lemma segments_nth:
  "k < length (segments (trace_steps cs n step p)) \<Longrightarrow>
     segments (trace_steps cs n step p) ! k =
       emit n (step + int k) (seg_start (segments (trace_steps cs n step p) ! k))
         (field_at cs (seg_start (segments (trace_steps cs n step p) ! k)))"
proof (induction cs n step p arbitrary: k rule: trace_steps.induct)
  case (1 cs n step p)
  show ?case
  proof (cases rule: trace_steps_cases [where step = step and n = n and cs = cs and p = p])
    case exhausted
    with "1.prems" show ?thesis by (simp add: trace_steps_done stop_def)
  next
    case captured
    with "1.prems" show ?thesis by (simp add: trace_steps_captured stop_def)
  next
    case vanished
    with "1.prems" show ?thesis by (simp add: trace_steps_vanished stop_def)
  next
    case escaped
    with "1.prems" show ?thesis by (simp add: trace_steps_escaped stop_def)
  next
    case emitted
    then have eq: "segments (trace_steps cs n step p) =
        emit n step p (field_at cs p) # segments (trace_steps cs n (step + 1) (advance p (field_at cs p)))"
      by (simp add: trace_steps_emit continue_def)
    show ?thesis
    proof (cases k)
      case 0
      then show ?thesis by (simp add: eq) (simp add: emit_def Let_def)
    next
      case (Suc j)
      with "1.prems" have "j < length (segments (trace_steps cs n (step + 1) (advance p (field_at cs p))))"
        by (simp add: eq)
      from "1.IH" [OF _ _ _ _ this] emitted Suc show ?thesis
        by (simp add: eq hitSink_field_at add.assoc)
    qed
  qed
qed

text \<open>
  Claim C9. Let the store hold no charge of value 0 (both commit paths refuse
  one). The \<open>k\<close>-th segment of a traced line is emitted at step \<open>k\<close>, and its alpha
  is the one of the specification at the point where the segment starts: 1
  normally, \<open>(maxSteps - k) / 50\<close> within the final 50 steps of the budget, and half
  of that when every negative charge is more than 20 units away from that point
  (which includes the case that there is no negative charge).
\<close>

theorem segment_alpha:
  assumes "\<forall>c \<in> set cs. val c \<noteq> 0"
    and "k < length (segments (trace_steps cs n 0 p))"
  shows "seg_alpha (segments (trace_steps cs n 0 p) ! k) =
      spec_alpha cs n (int k) (seg_start (segments (trace_steps cs n 0 p) ! k))"
proof -
  have "seg_alpha (segments (trace_steps cs n 0 p) ! k) =
      seg_alpha (emit n (int k) (seg_start (segments (trace_steps cs n 0 p) ! k))
         (field_at cs (seg_start (segments (trace_steps cs n 0 p) ! k))))"
    using segments_nth [OF assms(2)] by simp
  then show ?thesis
    by (simp add: emit_def Let_def seg_alpha_of_spec [OF assms(1)])
qed

lemma sqrt_hundredth: "sqrt (1 / 100) = 1 / 10"
  by (rule real_sqrt_unique) (simp_all add: power2_eq_square)

lemma sqrt_10000: "sqrt 10000 = 100"
  by (rule real_sqrt_unique) (simp_all add: power2_eq_square)

lemma field_unit_source:
  "field_at unit_source near_origin =
     \<lparr>dx = 100, dy = 0, dz = 0, minDistToNeg = 10000, minDistToPos = 1 / 10,
      hitSink = False, divByZero = False\<rparr>"
  by (simp add: field_at_def unit_source_def near_origin_def field_step_def field_init_def
      dist2_def Let_def sqrt_hundredth)

lemma advance_unit_source:
  "advance near_origin (field_at unit_source near_origin) = Vector3 (3 / 20) 0 0"
  unfolding field_unit_source
  by (simp add: advance_def magSq_def near_origin_def FIELD_LINE_STEP_SIZE_def sqrt_10000)

lemma trace_unit_source:
  "segments (trace_steps unit_source 1 0 near_origin) =
     [emit 1 0 near_origin (field_at unit_source near_origin)]"
proof -
  have "\<not> near_sink unit_source near_origin"
    by (simp add: near_sink_def unit_source_def)
  moreover have "\<not> magSq (field_at unit_source near_origin) < 1 / 10 ^ 12"
    by (simp add: field_unit_source magSq_def)
  moreover have "\<not> escaped (advance near_origin (field_at unit_source near_origin))"
    by (simp add: advance_unit_source escaped_def)
  ultimately show ?thesis
    by (simp add: trace_steps_emit trace_steps_done continue_def stop_def)
qed

theorem segment_alpha_witness:
  "0 < length (segments (trace_steps unit_source 1 0 near_origin))
   \<and> seg_alpha (segments (trace_steps unit_source 1 0 near_origin) ! 0) = 1 / 100"
proof -
  have h1: "\<forall>c \<in> set unit_source. val c \<noteq> 0"
    by (simp add: unit_source_def)
  have h2: "0 < length (segments (trace_steps unit_source 1 0 near_origin))"
    by (simp add: trace_unit_source)
  have "seg_start (segments (trace_steps unit_source 1 0 near_origin) ! 0) = near_origin"
    by (simp add: trace_unit_source emit_def Let_def)
  moreover have "spec_alpha unit_source 1 0 near_origin = 1 / 100"
    by (simp add: spec_alpha_def unit_source_def)
  ultimately show ?thesis
    using h2 segment_alpha [OF h1 h2] by simp
qed

section \<open>Seeding of the field lines\<close>

lemma seed_point_dist2: "dist2 (seed_point c nt np t pp) c = 1 / 100"
proof -
  define st where "st = sin (pi * real_of_int t / real_of_int nt)"
  define ct where "ct = cos (pi * real_of_int t / real_of_int nt)"
  define sp where "sp = sin (2 * pi * real_of_int pp / real_of_int np)"
  define cp where "cp = cos (2 * pi * real_of_int pp / real_of_int np)"
  have a: "st * st + ct * ct = 1" and b: "sp * sp + cp * cp = 1"
    unfolding st_def ct_def sp_def cp_def
    using sin_cos_squared_add [unfolded power2_eq_square] by blast+
  have "dist2 (seed_point c nt np t pp) c
      = (st * cp / 10) * (st * cp / 10) + (st * sp / 10) * (st * sp / 10) + (ct / 10) * (ct / 10)"
    by (simp add: dist2_def seed_point_def Let_def st_def ct_def sp_def cp_def)
  also have "\<dots> = (st * st * (sp * sp + cp * cp) + ct * ct) / 100"
    by (simp add: algebra_simps)
  also have "\<dots> = 1 / 100"
    by (simp add: a b)
  finally show ?thesis .
qed

lemma seed_point_off_pole:
  assumes "1 \<le> t" "t < nt"
  shows "\<bar>vec_z (seed_point c nt np t pp) - vec_z c\<bar> < 1 / 10"
proof -
  define th where "th = pi * real_of_int t / real_of_int nt"
  have nt: "0 < real_of_int nt" using assms by simp
  have "0 < th" unfolding th_def using assms nt by simp
  moreover have "th < pi"
  proof -
    have "real_of_int t / real_of_int nt < 1" using assms nt by simp
    then have "pi * (real_of_int t / real_of_int nt) < pi * 1"
      by (intro mult_strict_left_mono) simp_all
    then show ?thesis by (simp add: th_def)
  qed
  ultimately have "cos th < cos 0" "cos pi < cos th"
    by (intro cos_monotone_0_pi; simp)+
  then have "\<bar>cos th\<bar> < 1" by simp
  then show ?thesis
    by (simp add: seed_point_def Let_def th_def)
qed

lemma seeds_length:
  assumes "1 \<le> res"
  shows "length (seeds res c) = nat ((3 * res - 1) * (4 * res))"
proof -
  have "length [0..4 * res - 1] = nat (4 * res)"
    using assms by simp
  then have "length (seeds res c) = length [1..3 * res - 1] * nat (4 * res)"
    by (simp add: seeds_def Let_def length_concat comp_def sum_list_triv del: length_upto)
  also have "\<dots> = nat (3 * res - 1) * nat (4 * res)"
    using assms by simp
  also have "\<dots> = nat ((3 * res - 1) * (4 * res))"
    using assms by (simp add: nat_mult_distrib)
  finally show ?thesis .
qed

lemma seeds_set:
  assumes "s \<in> set (seeds res c)"
  shows "\<exists>t pp. 1 \<le> t \<and> t < 3 * res \<and> 0 \<le> pp \<and> pp < 4 * res
          \<and> s = seed_point c (3 * res) (4 * res) t pp"
  using assms by (fastforce simp: seeds_def Let_def)

lemma trace_frame_length:
  assumes "1 \<le> res"
  shows "length (trace_frame cs res n) = length (filter (\<lambda>c. val c > 0) cs) * nat ((3 * res - 1) * (4 * res))"
proof -
  have "length (concat (map (\<lambda>c. if val c \<le> 0 then [] else charge_lines cs' res n c) cs))
      = length (filter (\<lambda>c. val c > 0) cs) * nat ((3 * res - 1) * (4 * res))" for cs'
    by (induction cs) (simp_all add: charge_lines_def seeds_length [OF assms] not_less)
  then show ?thesis by (simp add: trace_frame_def)
qed

lemma square_le: "\<bar>u\<bar> \<le> k \<Longrightarrow> u * u \<le> k * (k::real)"
proof -
  assume "\<bar>u\<bar> \<le> k"
  then have "\<bar>u\<bar> * \<bar>u\<bar> \<le> k * k" by (intro mult_mono) simp_all
  then show ?thesis by simp
qed

lemma square_ge: "0 \<le> k \<Longrightarrow> k \<le> \<bar>u\<bar> \<Longrightarrow> k * k \<le> u * (u::real)"
proof -
  assume "0 \<le> k" "k \<le> \<bar>u\<bar>"
  then have "k * k \<le> \<bar>u\<bar> * \<bar>u\<bar>" by (intro mult_mono) simp_all
  then show ?thesis by simp
qed

lemma abs_le_of_square: "0 \<le> k \<Longrightarrow> u * u \<le> k * k \<Longrightarrow> \<bar>u\<bar> \<le> (k::real)"
  using abs_le_square_iff [of u k] by (simp add: power2_eq_square)

lemma unit_component:
  fixes d e f :: real
  shows "\<bar>d * (1 / sqrt (d * d + e * e + f * f))\<bar> \<le> 1"
proof (cases "d * d + e * e + f * f = 0")
  case True
  then show ?thesis by simp
next
  case False
  have nn: "0 \<le> d * d + e * e + f * f" by simp
  with False have "0 < d * d + e * e + f * f" by linarith
  then have pos: "0 < sqrt (d * d + e * e + f * f)" by simp
  have "d * d \<le> d * d + e * e + f * f" by simp
  then have "sqrt (d * d) \<le> sqrt (d * d + e * e + f * f)" by (rule real_sqrt_le_mono)
  then have "\<bar>d\<bar> \<le> sqrt (d * d + e * e + f * f)" by simp
  then have "\<bar>d\<bar> / sqrt (d * d + e * e + f * f) \<le> 1" using pos by simp
  then show ?thesis using pos by (simp add: abs_mult)
qed

lemma advance_close:
  "\<bar>vec_x (advance p f) - vec_x p\<bar> \<le> 1 / 20"
  "\<bar>vec_y (advance p f) - vec_y p\<bar> \<le> 1 / 20"
  "\<bar>vec_z (advance p f) - vec_z p\<bar> \<le> 1 / 20"
proof -
  have x: "\<bar>dx f * (1 / sqrt (magSq f))\<bar> \<le> 1"
    unfolding magSq_def by (rule unit_component)
  have y: "\<bar>dy f * (1 / sqrt (magSq f))\<bar> \<le> 1"
    using unit_component [of "dy f" "dx f" "dz f"] by (simp add: magSq_def add.commute)
  have z: "\<bar>dz f * (1 / sqrt (magSq f))\<bar> \<le> 1"
    using unit_component [of "dz f" "dx f" "dy f"] by (simp add: magSq_def add.commute add.left_commute)
  have "\<bar>u * (1 / 20)\<bar> \<le> 1 / 20" if "\<bar>u\<bar> \<le> 1" for u :: real
    using that by (simp add: abs_mult)
  from this [OF x] this [OF y] this [OF z]
  show "\<bar>vec_x (advance p f) - vec_x p\<bar> \<le> 1 / 20"
    "\<bar>vec_y (advance p f) - vec_y p\<bar> \<le> 1 / 20"
    "\<bar>vec_z (advance p f) - vec_z p\<bar> \<le> 1 / 20"
    by (simp_all add: advance_def Let_def FIELD_LINE_STEP_SIZE_def)
qed

lemma advance_stays_inside:
  assumes "\<bar>vec_x p\<bar> \<le> 20" "\<bar>vec_y p\<bar> \<le> 20" "\<bar>vec_z p\<bar> \<le> 20"
  shows "\<not> escaped (advance p f)"
proof -
  have "\<bar>vec_x (advance p f)\<bar> \<le> 21" "\<bar>vec_y (advance p f)\<bar> \<le> 21" "\<bar>vec_z (advance p f)\<bar> \<le> 21"
    using assms advance_close [of p f] by linarith+
  then have "vec_x (advance p f) * vec_x (advance p f) \<le> 21 * 21"
    "vec_y (advance p f) * vec_y (advance p f) \<le> 21 * 21"
    "vec_z (advance p f) * vec_z (advance p f) \<le> 21 * 21"
    by (simp_all only: square_le)
  then show ?thesis by (simp add: escaped_def)
qed

lemma start_scene_first_step:
  assumes d: "dist2 p (Vector3 (- 8) 0 0) = 1 / 100"
  shows "\<not> near_sink start_charges p"
    and "1 \<le> magSq (field_at start_charges p)"
    and "\<not> escaped (advance p (field_at start_charges p))"
proof -
  define a where "a = vec_x p + 8"
  define b where "b = vec_y p"
  define c where "c = vec_z p"
  have abc: "a * a + b * b + c * c = 1 / 100"
    using d by (simp add: dist2_def a_def b_def c_def)
  have "a * a \<le> 1 / 100" "b * b \<le> 1 / 100" "c * c \<le> 1 / 100"
    using abc zero_le_square [of a] zero_le_square [of b] zero_le_square [of c] by linarith+
  then have "a * a \<le> (1 / 10) * (1 / 10)" "b * b \<le> (1 / 10) * (1 / 10)" "c * c \<le> (1 / 10) * (1 / 10)"
    by simp_all
  then have small: "\<bar>a\<bar> \<le> 1 / 10" "\<bar>b\<bar> \<le> 1 / 10" "\<bar>c\<bar> \<le> 1 / 10"
    by (simp_all only: abs_le_of_square [of "1 / 10"] divide_nonneg_pos zero_le_one zero_less_numeral)
  define R where "R = sqrt (dist2 p (Vector3 8 0 0))"
  have R2: "dist2 p (Vector3 8 0 0) = (a - 16) * (a - 16) + b * b + c * c"
    by (simp add: dist2_def a_def b_def c_def)
  have "15 \<le> \<bar>a - 16\<bar>" using small by linarith
  then have "15 * 15 \<le> (a - 16) * (a - 16)" by (intro square_ge) simp_all
  then have far: "225 \<le> dist2 p (Vector3 8 0 0)"
    unfolding R2 using zero_le_square [of b] zero_le_square [of c] by linarith
  show ns: "\<not> near_sink start_charges p"
    using far by (simp add: near_sink_def start_charges_def)
  have "sqrt (15 * 15) \<le> R" unfolding R_def using far by (intro real_sqrt_le_mono) simp
  then have R: "15 \<le> R" by simp
  define q where "q = 1 / R"
  have q: "0 \<le> q" "q \<le> 1 / 15" using R by (simp_all add: q_def field_simps)
  then have "q * q \<le> (1 / 15) * (1 / 15)" by (intro mult_mono) simp_all
  then have "q * q * q \<le> (1 / 15) * (1 / 15) * (1 / 15)" using q by (intro mult_mono) simp_all
  moreover have "0 \<le> q * q * q" using q by simp
  define s1 where "s1 = - 2 * (q * q * q)"
  have s1: "\<bar>s1\<bar> \<le> 1 / 1000"
    using calculation \<open>0 \<le> q * q * q\<close> by (simp add: s1_def)
  have fx: "dx (field_at start_charges p) = 2000 * a + s1 * (a - 16)"
    and fy: "dy (field_at start_charges p) = (2000 + s1) * b"
    and fz: "dz (field_at start_charges p) = (2000 + s1) * c"
    by (simp_all add: field_at_def start_charges_def field_step_def field_init_def Let_def d
        sqrt_hundredth a_def b_def c_def s1_def q_def R_def algebra_simps)
  show "1 \<le> magSq (field_at start_charges p)"
  proof (cases "1 / 20 \<le> \<bar>a\<bar>")
    case True
    have "\<bar>s1 * (a - 16)\<bar> \<le> (1 / 1000) * 17"
      unfolding abs_mult using s1 small by (intro mult_mono) simp_all
    then have "1 \<le> \<bar>2000 * a + s1 * (a - 16)\<bar>" using True by linarith
    then have "1 * 1 \<le> (2000 * a + s1 * (a - 16)) * (2000 * a + s1 * (a - 16))"
      by (intro square_ge) simp_all
    then have "1 \<le> dx (field_at start_charges p) * dx (field_at start_charges p)"
      by (simp add: fx)
    then show ?thesis
      unfolding magSq_def
      using zero_le_square [of "dy (field_at start_charges p)"]
        zero_le_square [of "dz (field_at start_charges p)"] by linarith
  next
    case False
    then have "\<bar>a\<bar> \<le> 1 / 20" by simp
    then have "a * a \<le> (1 / 20) * (1 / 20)" by (rule square_le)
    then have bc: "3 / 400 \<le> b * b + c * c" using abc by simp
    have "1000 \<le> \<bar>2000 + s1\<bar>" using s1 by linarith
    then have W: "1000 * 1000 \<le> (2000 + s1) * (2000 + s1)" by (intro square_ge) simp_all
    have "1000 * 1000 * (3 / 400) \<le> (2000 + s1) * (2000 + s1) * (b * b + c * c)"
      by (rule mult_mono [OF W bc]) simp_all
    moreover have "dy (field_at start_charges p) * dy (field_at start_charges p)
        + dz (field_at start_charges p) * dz (field_at start_charges p)
        = (2000 + s1) * (2000 + s1) * (b * b + c * c)"
      by (simp add: fy fz algebra_simps)
    ultimately have "1 \<le> dy (field_at start_charges p) * dy (field_at start_charges p)
        + dz (field_at start_charges p) * dz (field_at start_charges p)"
      by linarith
    then show ?thesis
      unfolding magSq_def
      using zero_le_square [of "dx (field_at start_charges p)"] by linarith
  qed
  have "\<bar>vec_x p\<bar> \<le> 20" "\<bar>vec_y p\<bar> \<le> 20" "\<bar>vec_z p\<bar> \<le> 20"
    using small unfolding a_def b_def c_def by linarith+
  then show "\<not> escaped (advance p (field_at start_charges p))"
    by (rule advance_stays_inside)
qed

lemma start_scene_line:
  assumes "l \<in> set (trace_frame start_charges res n)"
  shows "\<exists>s. dist2 s (Vector3 (- 8) 0 0) = 1 / 100 \<and> l = trace_steps start_charges n 0 s"
proof -
  from assms have "l \<in> set (charge_lines start_charges res n \<lparr>position = Vector3 (- 8) 0 0, val = 2\<rparr>)"
    by (simp add: trace_frame_def start_charges_def)
  then obtain s where "s \<in> set (seeds res (Vector3 (- 8) 0 0))" "l = trace_steps start_charges n 0 s"
    by (auto simp: charge_lines_def)
  with seeds_set [of s res "Vector3 (- 8) 0 0"] seed_point_dist2 show ?thesis
    by blast
qed

lemma start_scene_emits:
  assumes "l \<in> set (trace_frame start_charges res n)" and "0 < n"
  shows "segments l \<noteq> []"
proof -
  from start_scene_line [OF assms(1)] obtain s
    where s: "dist2 s (Vector3 (- 8) 0 0) = 1 / 100" and l: "l = trace_steps start_charges n 0 s"
    by blast
  have "\<not> magSq (field_at start_charges s) < 1 / 10 ^ 12"
    using start_scene_first_step(2) [OF s] by simp
  with start_scene_first_step(1,3) [OF s] assms(2) show ?thesis
    by (simp add: l trace_steps_emit continue_def)
qed

text \<open>
  Claim C1. For every resolution \<open>res \<ge> 1\<close> a charge has exactly
  \<open>(3 res - 1) (4 res)\<close> seeds; each lies at distance 0.1 from the centre of the
  charge and off the two poles (its \<open>z\<close> offset is less than 0.1 in absolute
  value). One line is traced from each seed of a positive charge and none from any
  other charge, so a frame has that number of lines for each positive charge. In
  the start scene, the charges \<open>(-8, 0, 0, +2)\<close> and \<open>(8, 0, 0, -2)\<close> with resolution 3
  and 3000 steps, there are 96 lines, and every one of them emits at least one
  segment.
\<close>

theorem seeding:
  assumes "1 \<le> res"
  shows "length (seeds res c) = nat ((3 * res - 1) * (4 * res))
    \<and> (\<forall>s \<in> set (seeds res c). sqrt (dist2 s c) = 1 / 10 \<and> \<bar>vec_z s - vec_z c\<bar> < 1 / 10)
    \<and> length (charge_lines cs res n ch) = nat ((3 * res - 1) * (4 * res))
    \<and> length (trace_frame cs res n)
        = length (filter (\<lambda>ch. val ch > 0) cs) * nat ((3 * res - 1) * (4 * res))
    \<and> length (trace_frame start_charges 3 3000) = 96
    \<and> (\<forall>l \<in> set (trace_frame start_charges 3 3000). segments l \<noteq> [])"
proof (intro conjI ballI)
  show "length (seeds res c) = nat ((3 * res - 1) * (4 * res))"
    using assms by (rule seeds_length)
  show "length (charge_lines cs res n ch) = nat ((3 * res - 1) * (4 * res))"
    using assms by (simp add: charge_lines_def seeds_length)
  show "length (trace_frame cs res n)
      = length (filter (\<lambda>ch. val ch > 0) cs) * nat ((3 * res - 1) * (4 * res))"
    using assms by (rule trace_frame_length)
  show "length (trace_frame start_charges 3 3000) = 96"
    by (simp add: trace_frame_length start_charges_def)
  show "segments l \<noteq> []" if "l \<in> set (trace_frame start_charges 3 3000)" for l
    using that by (rule start_scene_emits) simp
next
  fix s assume "s \<in> set (seeds res c)"
  from seeds_set [OF this] obtain t pp
    where t: "1 \<le> t" "t < 3 * res" and s: "s = seed_point c (3 * res) (4 * res) t pp"
    by blast
  show "sqrt (dist2 s c) = 1 / 10"
    by (simp add: s seed_point_dist2 sqrt_hundredth)
  show "\<bar>vec_z s - vec_z c\<bar> < 1 / 10"
    unfolding s using t by (rule seed_point_off_pole)
qed

theorem seeding_witness:
  "length (seeds 1 (Vector3 0 0 0)) = 8
   \<and> length (trace_frame start_charges 1 3000) = 8
   \<and> length (trace_frame (start_charges @ start_charges) 5 10) = 560"
  using seeding [of 1 "Vector3 0 0 0" start_charges 3000]
    seeding [of 5 "Vector3 0 0 0" "start_charges @ start_charges" 10]
  by (simp add: start_charges_def)

section \<open>Lines of a single positive charge\<close>

text \<open>
  The two other divisions of the loop never have a zero divisor: the field is
  normalised only past the guard on its magnitude, and the colour mix divides by
  a sum of distances plus 0.001.
\<close>

lemma normalise_divisor_positive:
  "\<not> magSq f < 1 / 10 ^ 12 \<Longrightarrow> 0 < sqrt (magSq f)"
proof -
  assume "\<not> magSq f < 1 / 10 ^ 12"
  then have "0 < magSq f" by (simp add: not_less)
  then show ?thesis by simp
qed

lemma minDist_foldl_nonneg:
  "0 \<le> minDistToPos acc \<and> 0 \<le> minDistToNeg acc \<Longrightarrow>
     0 \<le> minDistToPos (foldl (field_step p) acc cs) \<and> 0 \<le> minDistToNeg (foldl (field_step p) acc cs)"
proof (induction cs arbitrary: acc)
  case Nil
  then show ?case by simp
next
  case (Cons c cs)
  have "0 \<le> sqrt (dist2 p (position c))" by (simp add: dist2_def)
  with Cons.prems have "0 \<le> minDistToPos (field_step p acc c) \<and> 0 \<le> minDistToNeg (field_step p acc c)"
    by (simp add: field_step_def Let_def)
  from Cons.IH [OF this] show ?case by simp
qed

lemma mix_divisor_positive:
  "0 < minDistToPos (field_at cs p) + minDistToNeg (field_at cs p) + 0.001"
  using minDist_foldl_nonneg [of field_init p cs] by (simp add: field_at_def field_init_def)

lemma single_source_step:
  assumes v: "0 < val c" and d: "0 < dist2 p (position c)"
  shows "\<not> near_sink [c] p"
    and "\<not> divByZero (field_at [c] p)"
    and "0 < dist2 (advance p (field_at [c] p)) (position c)"
proof -
  show "\<not> near_sink [c] p" using v by (simp add: near_sink_def)
  have r: "0 < sqrt (dist2 p (position c))" using d by simp
  then show "\<not> divByZero (field_at [c] p)"
    by (simp add: field_at_def field_step_def field_init_def Let_def)
  define q where "q = 1 / sqrt (dist2 p (position c))"
  define s where "s = val c * (q * q * q)"
  have "0 \<le> q" using r by (simp add: q_def)
  then have s: "0 \<le> s" using v by (simp add: s_def)
  define m where "m = 1 / sqrt (magSq (field_at [c] p))"
  define k where "k = s * m * (1 / 20)"
  have "0 \<le> m" by (simp add: m_def magSq_def)
  then have "0 \<le> s * m" using s by (rule mult_nonneg_nonneg [rotated])
  then have k: "0 \<le> k" unfolding k_def by (rule mult_nonneg_nonneg) simp
  have f: "dx (field_at [c] p) = s * (vec_x p - vec_x (position c))"
    "dy (field_at [c] p) = s * (vec_y p - vec_y (position c))"
    "dz (field_at [c] p) = s * (vec_z p - vec_z (position c))"
    by (simp_all add: field_at_def field_step_def field_init_def Let_def s_def q_def)
  have a: "vec_x (advance p (field_at [c] p)) = vec_x p + dx (field_at [c] p) * m * (1 / 20)"
    "vec_y (advance p (field_at [c] p)) = vec_y p + dy (field_at [c] p) * m * (1 / 20)"
    "vec_z (advance p (field_at [c] p)) = vec_z p + dz (field_at [c] p) * m * (1 / 20)"
    by (simp_all add: advance_def Let_def FIELD_LINE_STEP_SIZE_def m_def)
  have e: "vec_x (advance p (field_at [c] p)) - vec_x (position c) = (1 + k) * (vec_x p - vec_x (position c))"
    "vec_y (advance p (field_at [c] p)) - vec_y (position c) = (1 + k) * (vec_y p - vec_y (position c))"
    "vec_z (advance p (field_at [c] p)) - vec_z (position c) = (1 + k) * (vec_z p - vec_z (position c))"
    unfolding a f k_def by (simp_all add: field_simps)
  have "dist2 (advance p (field_at [c] p)) (position c)
      = (1 + k) * (vec_x p - vec_x (position c)) * ((1 + k) * (vec_x p - vec_x (position c)))
      + (1 + k) * (vec_y p - vec_y (position c)) * ((1 + k) * (vec_y p - vec_y (position c)))
      + (1 + k) * (vec_z p - vec_z (position c)) * ((1 + k) * (vec_z p - vec_z (position c)))"
    by (simp only: dist2_def e)
  also have "\<dots> = ((1 + k) * (1 + k)) * dist2 p (position c)"
    unfolding dist2_def by (simp add: algebra_simps)
  finally have "dist2 (advance p (field_at [c] p)) (position c)
      = ((1 + k) * (1 + k)) * dist2 p (position c)" .
  moreover have "0 < (1 + k) * (1 + k)" using k by (intro mult_pos_pos) simp_all
  ultimately show "0 < dist2 (advance p (field_at [c] p)) (position c)"
    using d by simp
qed

lemma single_source_trace:
  assumes "0 < val c"
  shows "0 < dist2 p (position c) \<Longrightarrow>
    \<not> dividedByZero (trace_steps [c] n step p) \<and> outcome (trace_steps [c] n step p) \<noteq> CapturedBySink"
proof (induction "[c]" n step p rule: trace_steps.induct)
  case (1 n step p)
  note st = single_source_step [OF assms "1.prems"]
  show ?case
  proof (cases rule: trace_steps_cases [where step = step and n = n and cs = "[c]" and p = p])
    case exhausted
    then show ?thesis by (simp add: trace_steps_done stop_def)
  next
    case captured
    with st show ?thesis by simp
  next
    case vanished
    with st show ?thesis by (simp add: trace_steps_vanished stop_def)
  next
    case escaped
    with st show ?thesis by (simp add: trace_steps_escaped stop_def)
  next
    case emitted
    with st "1.hyps" show ?thesis
      by (simp add: trace_steps_emit continue_def hitSink_field_at)
  qed
qed

lemma single_source_line:
  assumes "l \<in> set (trace_frame [c] res n)"
  shows "\<exists>s. dist2 s (position c) = 1 / 100 \<and> l = trace_steps [c] n 0 s"
proof -
  from assms have "l \<in> set (charge_lines [c] res n c)"
    by (simp add: trace_frame_def split: if_splits)
  then obtain s where "s \<in> set (seeds res (position c))" "l = trace_steps [c] n 0 s"
    by (auto simp: charge_lines_def)
  with seeds_set [of s res "position c"] seed_point_dist2 show ?thesis
    by blast
qed

lemma tiny_source_vanishes:
  assumes d: "dist2 p (Vector3 0 0 0) = 1 / 100" and n: "0 < n"
  shows "trace_steps tiny_source n 0 p = stop FieldVanished 0 p False"
proof -
  have f: "dx (field_at tiny_source p) = vec_x p / 10 ^ 6"
    "dy (field_at tiny_source p) = vec_y p / 10 ^ 6"
    "dz (field_at tiny_source p) = vec_z p / 10 ^ 6"
    "divByZero (field_at tiny_source p) = False"
    by (simp_all add: field_at_def tiny_source_def field_step_def field_init_def Let_def d
        sqrt_hundredth)
  have "magSq (field_at tiny_source p) = dist2 p (Vector3 0 0 0) / 10 ^ 12"
    unfolding magSq_def f dist2_def by (simp add: field_simps)
  then have "magSq (field_at tiny_source p) < 1 / 10 ^ 12"
    by (simp add: d)
  moreover have "\<not> near_sink tiny_source p"
    by (simp add: near_sink_def tiny_source_def)
  ultimately show ?thesis
    using n by (simp add: trace_steps_vanished f)
qed

text \<open>
  Claim C3, amended. Every seed of a charge lies at distance 0.1 from it. With a
  single positive charge and no other charge, no point of any seeded line is at
  distance 0 from the charge, so that no division by zero occurs, and every line
  ends by the vanished field, by the boundary or by the step budget, never captured
  by a sink. For every list of charges, no segment starts within the capture radius
  of a negative charge (squared distance below 0.04).
\<close>

theorem single_source_lines:
  assumes "0 < val c"
  shows "(\<forall>s \<in> set (seeds res (position c)). sqrt (dist2 s (position c)) = 1 / 10)
    \<and> (\<forall>l \<in> set (trace_frame [c] res n).
          \<not> dividedByZero l
          \<and> (outcome l = FieldVanished \<or> outcome l = EscapedBoundary
              \<or> outcome l = StepBudgetExhausted))
    \<and> (\<forall>sg \<in> set (segments (trace_steps cs n 0 p)).
          \<forall>k \<in> set cs. val k < 0 \<longrightarrow> 0.04 \<le> dist2 (seg_start sg) (position k))"
proof (intro conjI ballI impI)
  fix s assume "s \<in> set (seeds res (position c))"
  from seeds_set [OF this] show "sqrt (dist2 s (position c)) = 1 / 10"
    by (auto simp: seed_point_dist2 sqrt_hundredth)
next
  fix l assume "l \<in> set (trace_frame [c] res n)"
  from single_source_line [OF this] obtain s
    where s: "dist2 s (position c) = 1 / 100" and l: "l = trace_steps [c] n 0 s"
    by blast
  from s have "0 < dist2 s (position c)" by simp
  from single_source_trace [OF assms this, of n 0]
  show "\<not> dividedByZero l"
    and "outcome l = FieldVanished \<or> outcome l = EscapedBoundary \<or> outcome l = StepBudgetExhausted"
    unfolding l by (simp, cases "outcome (trace_steps [c] n 0 s)") simp_all
next
  fix sg k
  assume "sg \<in> set (segments (trace_steps cs n 0 p))" "k \<in> set cs" "val k < 0"
  with trace_steps_starts [of sg cs n 0 p] show "0.04 \<le> dist2 (seg_start sg) (position k)"
    by (auto simp: near_sink_def not_less)
qed

theorem single_source_lines_witness:
  "\<not> dividedByZero (hd (trace_frame unit_source 3 3000))
   \<and> outcome (hd (trace_frame unit_source 3 3000)) \<noteq> CapturedBySink"
proof -
  have v: "0 < val \<lparr>position = Vector3 0 0 0, val = 1\<rparr>" by simp
  have "length (trace_frame unit_source 3 3000) = 96"
    by (simp add: trace_frame_length unit_source_def)
  then have "trace_frame unit_source 3 3000 \<noteq> []" by auto
  then have "hd (trace_frame unit_source 3 3000) \<in> set (trace_frame unit_source 3 3000)"
    by (rule hd_in_set)
  then have h: "hd (trace_frame unit_source 3 3000)
      \<in> set (trace_frame [\<lparr>position = Vector3 0 0 0, val = 1\<rparr>] 3 3000)"
    by (simp add: unit_source_def)
  from single_source_lines [OF v, of 3 3000 "[]" "Vector3 0 0 0"]
  have "\<forall>l \<in> set (trace_frame [\<lparr>position = Vector3 0 0 0, val = 1\<rparr>] 3 3000).
      \<not> dividedByZero l
      \<and> (outcome l = FieldVanished \<or> outcome l = EscapedBoundary \<or> outcome l = StepBudgetExhausted)"
    by (simp del: One_nat_def)
  from bspec [OF this h] show ?thesis by auto
qed

text \<open>
  Claim C3 as stated excludes the vanished field for a single positive charge.
  For the charge of value \<open>0.000000001\<close> at the origin, with resolution 3 and 3000
  steps, the field at distance 0.1 has squared magnitude \<open>1 / 10 ^ 14\<close>, below the
  threshold \<open>1 / 10 ^ 12\<close>: the first of the 96 lines ends at step 0 by the vanished
  field, with no segment.
\<close>

theorem tiny_source_counterexample:
  "length (trace_frame tiny_source 3 3000) = 96
   \<and> outcome (hd (trace_frame tiny_source 3 3000)) = FieldVanished
   \<and> outcome (hd (trace_frame tiny_source 3 3000)) \<noteq> EscapedBoundary
   \<and> outcome (hd (trace_frame tiny_source 3 3000)) \<noteq> StepBudgetExhausted
   \<and> segments (hd (trace_frame tiny_source 3 3000)) = []"
proof -
  have len: "length (trace_frame tiny_source 3 3000) = 96"
    by (simp add: trace_frame_length tiny_source_def)
  then have "trace_frame tiny_source 3 3000 \<noteq> []" by auto
  then have "hd (trace_frame tiny_source 3 3000) \<in> set (trace_frame tiny_source 3 3000)"
    by (rule hd_in_set)
  then have "hd (trace_frame tiny_source 3 3000)
      \<in> set (trace_frame [\<lparr>position = Vector3 0 0 0, val = 1 / 10 ^ 9\<rparr>] 3 3000)"
    by (simp add: tiny_source_def)
  from single_source_line [OF this] obtain s
    where "dist2 s (Vector3 0 0 0) = 1 / 100"
      and "hd (trace_frame tiny_source 3 3000) = trace_steps tiny_source 3000 0 s"
    by (auto simp: tiny_source_def)
  then have "hd (trace_frame tiny_source 3 3000) = stop FieldVanished 0 s False"
    by (simp add: tiny_source_vanishes)
  with len show ?thesis by (simp add: stop_def)
qed

text \<open>
  With several charges a trace point can coincide with a charge. At resolution 2 the
  seed \<open>t = 3\<close>, \<open>p = 0\<close> of a charge at the origin is \<open>(0.1, 0, 0)\<close> in exact arithmetic;
  with a negative charge there, the loop over the charges divides by the distance 0
  before the capture test ends the line.
\<close>

lemma seed_on_sink:
  "seed_point (Vector3 0 0 0) 6 8 3 0 = Vector3 (1 / 10) 0 0"
  by (simp add: seed_point_def)

lemma seed_on_sink_divides:
  "dividedByZero (trace_steps [\<lparr>position = Vector3 0 0 0, val = 1\<rparr>, \<lparr>position = Vector3 (1 / 10) 0 0, val = - 1\<rparr>]
      3000 0 (seed_point (Vector3 0 0 0) 6 8 3 0))"
proof -
  have "near_sink [\<lparr>position = Vector3 0 0 0, val = 1\<rparr>, \<lparr>position = Vector3 (1 / 10) 0 0, val = - 1\<rparr>]
      (Vector3 (1 / 10) 0 0)"
    by (simp add: near_sink_def dist2_def)
  then show ?thesis
    by (simp add: seed_on_sink trace_steps_captured stop_def field_at_def field_step_def
        field_init_def dist2_def Let_def)
qed

end
